theory Spec2Isabelle
  imports Main "HOL-Library.Word"
begin

section \<open>Memory\<close>

text \<open>
  The C code works on heap objects reached through pointers: levels are shared between
  the item that links to them, their own \<open>parent\<close> back reference and the session, so
  they live in an explicit store. A store is an arena: the address of an object is its
  index, a slot holds \<open>None\<close> once the object has been freed, and \<open>malloc\<close> hands out
  the next index. The null pointer is \<open>None\<close> of type \<open>nat option\<close>. Whether a
  \<open>malloc\<close> succeeds is decided by the environment, so each operation takes one
  boolean per allocation it may perform. A block that is allocated and freed again within
  one call leaves the arena as it was.
\<close>

datatype fault = NullPointer | DanglingPointer | OutOfBounds | OutOfFuel

type_synonym 'a arena = "'a option list"

definition deref :: "'a arena \<Rightarrow> nat \<Rightarrow> 'a option" where
  "deref m p = (if p < length m then m ! p else None)"

definition alloc :: "'a arena \<Rightarrow> 'a \<Rightarrow> nat \<times> 'a arena" where
  "alloc m v = (length m, m @ [Some v])"

definition release :: "'a arena \<Rightarrow> nat \<Rightarrow> 'a arena" where
  "release m p = m[p := None]"

section \<open>The structs of action\_menu.c\<close>

datatype ActionMenuLevelDisplayMode =
  ActionMenuLevelDisplayModeWide | ActionMenuLevelDisplayModeThin

text \<open>
  \<open>struct ActionMenuItem\<close>. The label is the item's own copy of the text
  (\<open>malloc\<close> and \<open>strcpy\<close>); \<open>action_data\<close> and \<open>cb\<close> are an opaque pointer and
  a function pointer, kept as addresses; \<open>child\<close> is a pointer to a level.
\<close>

record ActionMenuItem =
  label :: "string option"
  action_data :: "nat option"
  cb :: "nat option"
  child :: "nat option"

text \<open>
  \<open>struct ActionMenuLevel\<close>. \<open>items\<close> is the array of \<open>max_items\<close> item
  pointers that \<open>action_menu_level_create\<close> allocates and zeroes; the counters are
  \<open>uint16_t\<close>.
\<close>

record ActionMenuLevel =
  max_items :: "16 word"
  num_items :: "16 word"
  items :: "nat option list"
  display_mode :: ActionMenuLevelDisplayMode
  level :: "16 word"
  parent :: "nat option"

record memory =
  level_mem :: "ActionMenuLevel arena"
  item_mem :: "ActionMenuItem arena"

text \<open>An assignment through a level pointer, \<open>p->field = v\<close>, on a live level.\<close>

definition set_level :: "memory \<Rightarrow> nat \<Rightarrow> (ActionMenuLevel \<Rightarrow> ActionMenuLevel) \<Rightarrow> memory" where
  "set_level s p f =
     (case deref (level_mem s) p of
        None \<Rightarrow> s
      | Some L \<Rightarrow> s\<lparr>level_mem := (level_mem s)[p := Some (f L)]\<rparr>)"

section \<open>Building a hierarchy\<close>

text \<open>
  \<open>action_menu_level_create\<close>: two allocations, the struct and the item array. When
  the second fails the struct is freed again and the result is null.
\<close>

definition action_menu_level_create ::
  "memory \<Rightarrow> 16 word \<Rightarrow> bool \<Rightarrow> bool \<Rightarrow> nat option \<times> memory" where
  "action_menu_level_create s n ok_level ok_items =
     (if ok_level then
        (if \<not> ok_items then (None, s)
         else
           (let (p, m) = alloc (level_mem s)
                  \<lparr>max_items = n, num_items = 0, items = replicate (unat n) None,
                   display_mode = ActionMenuLevelDisplayModeWide, level = 1, parent = None\<rparr>
            in (Some p, s\<lparr>level_mem := m\<rparr>)))
      else (None, s))"

text \<open>\<open>action_menu_level_set_display_mode\<close>.\<close>

definition action_menu_level_set_display_mode ::
  "memory \<Rightarrow> nat option \<Rightarrow> ActionMenuLevelDisplayMode \<Rightarrow> fault + memory" where
  "action_menu_level_set_display_mode s lvl mode =
     (case lvl of
        None \<Rightarrow> Inr s
      | Some l \<Rightarrow>
          (case deref (level_mem s) l of
             None \<Rightarrow> Inl DanglingPointer
           | Some L \<Rightarrow> Inr (set_level s l (\<lambda>L. L\<lparr>display_mode := mode\<rparr>))))"

text \<open>
  \<open>action_menu_level_add_action\<close>. The guard \<open>level && num_items < max_items\<close>, the
  allocation of the item, the allocation of the label's copy when a label is given, then
  the store into slot \<open>num_items\<close> and the increment.
\<close>

definition action_menu_level_add_action ::
  "memory \<Rightarrow> nat option \<Rightarrow> string option \<Rightarrow> nat option \<Rightarrow> nat option \<Rightarrow> bool \<Rightarrow> bool
     \<Rightarrow> fault + (nat option \<times> memory)" where
  "action_menu_level_add_action s lvl lbl cbf data ok_item ok_label =
     (case lvl of
        None \<Rightarrow> Inr (None, s)
      | Some l \<Rightarrow>
          (case deref (level_mem s) l of
             None \<Rightarrow> Inl DanglingPointer
           | Some L \<Rightarrow>
               if num_items L < max_items L then
                 (if \<not> ok_item then Inr (None, s)
                  else if lbl \<noteq> None \<and> \<not> ok_label then Inr (None, s)
                  else if length (items L) \<le> unat (num_items L) then Inl OutOfBounds
                  else
                    (let (ip, im) = alloc (item_mem s)
                           \<lparr>label = lbl, action_data = data, cb = cbf, child = None\<rparr>;
                         s1 = set_level (s\<lparr>item_mem := im\<rparr>) l
                           (\<lambda>L. L\<lparr>items := (items L)[unat (num_items L) := Some ip]\<rparr>);
                         s2 = set_level s1 l (\<lambda>L. L\<lparr>num_items := num_items L + 1\<rparr>)
                     in Inr (Some ip, s2)))
               else Inr (None, s)))"

text \<open>
  \<open>action_menu_level_add_child\<close>, statement by statement. After the guard and the
  item's allocation the code writes \<open>child->parent = level\<close> (dereferencing \<open>child\<close>
  unchecked) before it allocates the label; on a failed label allocation it frees the item
  and returns null. Only then come \<open>child->level = level->level + 1\<close>, the store into
  the slot and the increment. Each read is made from the memory as it is at that point,
  since \<open>child\<close> and \<open>level\<close> may be the same object.
\<close>

definition action_menu_level_add_child ::
  "memory \<Rightarrow> nat option \<Rightarrow> nat option \<Rightarrow> string option \<Rightarrow> bool \<Rightarrow> bool
     \<Rightarrow> fault + (nat option \<times> memory)" where
  "action_menu_level_add_child s lvl chd lbl ok_item ok_label =
     (case lvl of
        None \<Rightarrow> Inr (None, s)
      | Some l \<Rightarrow>
          (case deref (level_mem s) l of
             None \<Rightarrow> Inl DanglingPointer
           | Some L \<Rightarrow>
               if num_items L < max_items L then
                 (if \<not> ok_item then Inr (None, s)
                  else
                    (case chd of
                       None \<Rightarrow> Inl NullPointer
                     | Some c \<Rightarrow>
                         (case deref (level_mem s) c of
                            None \<Rightarrow> Inl DanglingPointer
                          | Some C \<Rightarrow>
                              (let s1 = set_level s c (\<lambda>C. C\<lparr>parent := Some l\<rparr>) in
                               if lbl \<noteq> None \<and> \<not> ok_label then Inr (None, s1)
                               else
                                 (case deref (level_mem s1) l of
                                    None \<Rightarrow> Inl DanglingPointer
                                  | Some L1 \<Rightarrow>
                                      (let s2 = set_level s1 c (\<lambda>C. C\<lparr>level := level L1 + 1\<rparr>) in
                                       (case deref (level_mem s2) l of
                                          None \<Rightarrow> Inl DanglingPointer
                                        | Some L2 \<Rightarrow>
                                            if length (items L2) \<le> unat (num_items L2)
                                            then Inl OutOfBounds
                                            else
                                              (let (ip, im) = alloc (item_mem s2)
                                                     \<lparr>label = lbl, action_data = None, cb = None,
                                                      child = Some c\<rparr>;
                                                   s3 = set_level (s2\<lparr>item_mem := im\<rparr>) l
                                                     (\<lambda>L. L\<lparr>items :=
                                                        (items L)[unat (num_items L) := Some ip]\<rparr>);
                                                   s4 = set_level s3 l
                                                     (\<lambda>L. L\<lparr>num_items := num_items L + 1\<rparr>)
                                               in Inr (Some ip, s4)))))))))
               else Inr (None, s)))"

text \<open>The getters of an item.\<close>

definition action_menu_item_get_label :: "memory \<Rightarrow> nat option \<Rightarrow> fault + string option" where
  "action_menu_item_get_label s item =
     (case item of
        None \<Rightarrow> Inr None
      | Some ip \<Rightarrow>
          (case deref (item_mem s) ip of
             None \<Rightarrow> Inl DanglingPointer
           | Some it \<Rightarrow> Inr (label it)))"

definition action_menu_item_get_action_data :: "memory \<Rightarrow> nat option \<Rightarrow> fault + nat option" where
  "action_menu_item_get_action_data s item =
     (case item of
        None \<Rightarrow> Inr None
      | Some ip \<Rightarrow>
          (case deref (item_mem s) ip of
             None \<Rightarrow> Inl DanglingPointer
           | Some it \<Rightarrow> Inr (action_data it)))"

text \<open>
  A program that builds a hierarchy is a sequence of calls of the four builder
  operations; \<open>run\<close> performs them in order and collects what each returned.
\<close>

datatype builder_op =
  Create "16 word" bool bool
  | SetDisplayMode "nat option" ActionMenuLevelDisplayMode
  | AddAction "nat option" "string option" "nat option" "nat option" bool bool
  | AddChild "nat option" "nat option" "string option" bool bool

fun step :: "memory \<Rightarrow> builder_op \<Rightarrow> fault + (nat option \<times> memory)" where
  "step s (Create n ok_level ok_items) = Inr (action_menu_level_create s n ok_level ok_items)"
| "step s (SetDisplayMode lvl mode) =
     (case action_menu_level_set_display_mode s lvl mode of
        Inl e \<Rightarrow> Inl e
      | Inr s' \<Rightarrow> Inr (None, s'))"
| "step s (AddAction lvl lbl cbf data ok_item ok_label) =
     action_menu_level_add_action s lvl lbl cbf data ok_item ok_label"
| "step s (AddChild lvl chd lbl ok_item ok_label) =
     action_menu_level_add_child s lvl chd lbl ok_item ok_label"

fun run :: "memory \<Rightarrow> builder_op list \<Rightarrow> fault + (nat option list \<times> memory)" where
  "run s [] = Inr ([], s)"
| "run s (op # ops) =
     (case step s op of
        Inl e \<Rightarrow> Inl e
      | Inr (r, s1) \<Rightarrow>
          (case run s1 ops of
             Inl e \<Rightarrow> Inl e
           | Inr (rs, s2) \<Rightarrow> Inr (r # rs, s2)))"

section \<open>Destroying a hierarchy\<close>

text \<open>
  \<open>action_menu_hierarchy_destroy\<close>. The loop over the items of \<open>root\<close> and the
  recursion into an item's child are one recursive function: \<open>destroy_items\<close> runs
  the loop of level \<open>root\<close> from index \<open>i\<close> on and then frees the level. Every
  iteration reads \<open>root->num_items\<close> and \<open>root->items[i]\<close> from the memory as it
  is by then. The recursion follows pointers and need not end (a level can be linked
  below itself), so the function takes fuel, one unit per level entered or iteration
  made. The visitor \<open>each_cb\<close> is application code; the model records the item
  pointers it is called with, in order, and calls nothing when \<open>each_cb\<close> is null.
  The release of a label's buffer is not tracked apart from its item.
\<close>

fun destroy_items ::
  "nat \<Rightarrow> memory \<Rightarrow> nat \<Rightarrow> nat \<Rightarrow> nat option \<Rightarrow> fault + (nat list \<times> memory)" where
  "destroy_items 0 s root i each_cb = Inl OutOfFuel"
| "destroy_items (Suc n) s root i each_cb =
     (case deref (level_mem s) root of
        None \<Rightarrow> Inl DanglingPointer
      | Some R \<Rightarrow>
          if i < unat (num_items R) then
            (if length (items R) \<le> i then Inl OutOfBounds
             else
               (case items R ! i of
                  None \<Rightarrow> Inl NullPointer
                | Some ip \<Rightarrow>
                    (case deref (item_mem s) ip of
                       None \<Rightarrow> Inl DanglingPointer
                     | Some it \<Rightarrow>
                         (case (case child it of
                                  None \<Rightarrow> Inr ([], s)
                                | Some c \<Rightarrow> destroy_items n s c 0 each_cb) of
                            Inl e \<Rightarrow> Inl e
                          | Inr (vs, s1) \<Rightarrow>
                              (case deref (item_mem s1) ip of
                                 None \<Rightarrow> Inl DanglingPointer
                               | Some it1 \<Rightarrow>
                                   (case destroy_items n
                                           (s1\<lparr>item_mem := release (item_mem s1) ip\<rparr>)
                                           root (Suc i) each_cb of
                                      Inl e \<Rightarrow> Inl e
                                    | Inr (ws, s2) \<Rightarrow>
                                        Inr (vs @ (if each_cb = None then [] else [ip]) @ ws,
                                             s2)))))))
          else Inr ([], s\<lparr>level_mem := release (level_mem s) root\<rparr>))"

definition action_menu_hierarchy_destroy ::
  "nat \<Rightarrow> memory \<Rightarrow> nat option \<Rightarrow> nat option \<Rightarrow> fault + (nat list \<times> memory)" where
  "action_menu_hierarchy_destroy fuel s root each_cb =
     (case root of
        None \<Rightarrow> Inr ([], s)
      | Some r \<Rightarrow> destroy_items fuel s r 0 each_cb)"

text \<open>
  The shape of a tree of levels in memory, used to say which hierarchies are trees. A
  shape lists the items of a level from some index on: \<open>Leaf ip rest\<close> is an item at
  address \<open>ip\<close> without a child, \<open>Sub ip c sub rest\<close> an item at \<open>ip\<close> whose child
  is the level at \<open>c\<close> with items \<open>sub\<close>.
\<close>

datatype shape = Done | Leaf nat shape | Sub nat nat shape shape

fun shape_at :: "memory \<Rightarrow> nat \<Rightarrow> nat \<Rightarrow> shape \<Rightarrow> bool" where
  "shape_at s p i Done =
     (case deref (level_mem s) p of
        None \<Rightarrow> False
      | Some L \<Rightarrow> unat (num_items L) = i)"
| "shape_at s p i (Leaf ip rest) =
     (case deref (level_mem s) p of
        None \<Rightarrow> False
      | Some L \<Rightarrow>
          i < unat (num_items L) \<and> i < length (items L) \<and> items L ! i = Some ip \<and>
          (case deref (item_mem s) ip of
             None \<Rightarrow> False
           | Some it \<Rightarrow> child it = None) \<and>
          shape_at s p (Suc i) rest)"
| "shape_at s p i (Sub ip c sub rest) =
     (case deref (level_mem s) p of
        None \<Rightarrow> False
      | Some L \<Rightarrow>
          i < unat (num_items L) \<and> i < length (items L) \<and> items L ! i = Some ip \<and>
          (case deref (item_mem s) ip of
             None \<Rightarrow> False
           | Some it \<Rightarrow> child it = Some c) \<and>
          shape_at s c 0 sub \<and> shape_at s p (Suc i) rest)"

text \<open>The items of a shape in post-order: a child's items before the item that links to it.\<close>

fun postorder :: "shape \<Rightarrow> nat list" where
  "postorder Done = []"
| "postorder (Leaf ip rest) = ip # postorder rest"
| "postorder (Sub ip c sub rest) = postorder sub @ ip # postorder rest"

fun sublevels :: "shape \<Rightarrow> nat list" where
  "sublevels Done = []"
| "sublevels (Leaf ip rest) = sublevels rest"
| "sublevels (Sub ip c sub rest) = c # sublevels sub @ sublevels rest"

text \<open>Every item that has a child, with the items of that child's subtree.\<close>

fun submenus :: "shape \<Rightarrow> (nat \<times> nat list) list" where
  "submenus Done = []"
| "submenus (Leaf ip rest) = submenus rest"
| "submenus (Sub ip c sub rest) = (ip, postorder sub) # submenus sub @ submenus rest"

fun fuel_for :: "shape \<Rightarrow> nat" where
  "fuel_for Done = 1"
| "fuel_for (Leaf ip rest) = Suc (fuel_for rest)"
| "fuel_for (Sub ip c sub rest) = Suc (max (fuel_for sub) (fuel_for rest))"

text \<open>
  The hierarchy below \<open>root\<close> is a tree of shape \<open>t\<close>: no level is linked twice or
  below itself, and no item belongs to two slots.
\<close>

definition tree_at :: "memory \<Rightarrow> nat \<Rightarrow> shape \<Rightarrow> bool" where
  "tree_at s root t =
     (shape_at s root 0 t \<and> distinct (root # sublevels t) \<and> distinct (postorder t))"

text \<open>The number of items of the levels at the addresses \<open>ps\<close>.\<close>

fun count_items :: "memory \<Rightarrow> nat list \<Rightarrow> nat" where
  "count_items s [] = 0"
| "count_items s (p # ps) =
     (case deref (level_mem s) p of
        None \<Rightarrow> 0
      | Some L \<Rightarrow> unat (num_items L)) + count_items s ps"

text \<open>\<open>precedes a b xs\<close>: \<open>a\<close> occurs in \<open>xs\<close> before the first \<open>b\<close>, and \<open>b\<close> occurs.\<close>

fun precedes :: "nat \<Rightarrow> nat \<Rightarrow> nat list \<Rightarrow> bool" where
  "precedes a b [] = False"
| "precedes a b (x # xs) =
     (if x = b then False else if x = a then b \<in> set xs else precedes a b xs)"

section \<open>The session and its host\<close>

text \<open>
  \<open>ActionMenuConfig\<close> and \<open>struct ActionMenu\<close>. The colours and the alignment of
  the configuration and the layers and the bitmap of the session only serve drawing and
  are left out. \<open>config\<close> is the session's own copy of the configuration. Windows,
  callbacks and the context are addresses; the field \<open>context\<close> of the
  configuration is written \<open>app_context\<close> here.
\<close>

record ActionMenuConfig =
  root_level :: "nat option"
  app_context :: "nat option"
  will_close :: "nat option"
  did_close :: "nat option"

record ActionMenu =
  current_level :: "nat option"
  tmp_level :: "nat option"
  performed_action :: "nat option"
  config :: ActionMenuConfig
  result_window :: "nat option"
  frozen :: bool
  window :: "nat option"
  prop_animation :: "nat option"

text \<open>
  Modelled from the spec: the Pebble runtime is not part of the repository, and the model
  keeps of it what the spec's host capabilities (section 6) name. The window stack
  (\<open>present\<close>, \<open>dismiss\<close>), the selected row of the menu layer
  (\<open>get_selected_row\<close>), the number of reloads requested (\<open>request_reload\<close>), the
  horizontal position of the sliding background layer, the property animations that
  exist and those that are scheduled (\<open>schedule_slide\<close>). An animation is its target
  position and whether \<open>animation_out_stopped\<close> is its stopped handler. The host calls
  the stopped handler of a scheduled animation exactly once (section 6), from its event
  loop (section 5): \<open>stopped_due\<close> lists the animations that left the schedule before
  their end and whose stopped handler the event loop has still to call.
\<close>

record animation =
  to_x :: int
  stopped :: bool

record pebble =
  window_stack :: "nat list"
  windows :: nat
  frame_x :: int
  selected_row :: "16 word"
  reloads :: nat
  animations :: "animation arena"
  scheduled :: "nat list"
  stopped_due :: "nat list"

text \<open>
  What a handler works on: the memory of the hierarchy, the session its context pointer
  refers to, and the host. An action callback is application code that may change any of
  them (it may call \<open>action_menu_freeze\<close> on the session it is given); the handlers
  take its meaning as the parameter \<open>perform\<close>, from the function pointer, the item
  and the context to a change of the world.
\<close>

record world =
  mem :: memory
  menu :: ActionMenu
  host :: pebble

type_synonym callbacks = "nat \<Rightarrow> nat \<Rightarrow> nat option \<Rightarrow> world \<Rightarrow> world"

text \<open>
  Modelled from the spec: \<open>dismiss\<close> and \<open>present\<close> of the host, as
  \<open>window_stack_remove\<close> and \<open>window_stack_push\<close>. The window leaves the stack,
  or goes on top of it; what the host does to a window afterwards (its unload handler) is
  not part of a handler's run.
\<close>

definition window_stack_remove :: "pebble \<Rightarrow> nat option \<Rightarrow> pebble" where
  "window_stack_remove h wnd =
     (case wnd of
        None \<Rightarrow> h
      | Some x \<Rightarrow> h\<lparr>window_stack := removeAll x (window_stack h)\<rparr>)"

definition window_stack_push :: "pebble \<Rightarrow> nat option \<Rightarrow> pebble" where
  "window_stack_push h wnd =
     (case wnd of
        None \<Rightarrow> h
      | Some x \<Rightarrow> h\<lparr>window_stack := x # window_stack h\<rparr>)"

text \<open>
  Modelled from the spec: the host's \<open>animation_is_scheduled\<close>,
  \<open>animation_unschedule\<close> and \<open>property_animation_destroy\<close>. The host owes every
  scheduled slide one call of its completion handler (section 6: \<open>on_complete\<close> is invoked
  exactly once), and completion handlers are delivered by the event loop, never from inside
  a call of the core (section 5). So an animation that is unscheduled before its end leaves
  the schedule and, when it has a stopped handler, joins \<open>stopped_due\<close>; the handler
  is then called by \<open>animation_stopped_delivered\<close> below, with \<open>finished\<close> false,
  which \<open>animation_out_stopped\<close> does not read. Destroying an animation takes it out of
  the schedule in the same way and frees it.
\<close>

definition animation_is_scheduled :: "pebble \<Rightarrow> nat \<Rightarrow> bool" where
  "animation_is_scheduled h a = (a \<in> set (scheduled h))"

definition animation_unschedule :: "pebble \<Rightarrow> nat \<Rightarrow> pebble" where
  "animation_unschedule h a =
     (if a \<in> set (scheduled h) then
        h\<lparr>scheduled := removeAll a (scheduled h),
          stopped_due := stopped_due h @
            (case deref (animations h) a of
               None \<Rightarrow> []
             | Some an \<Rightarrow> if stopped an then [a] else [])\<rparr>
      else h)"

definition property_animation_destroy :: "pebble \<Rightarrow> nat \<Rightarrow> pebble" where
  "property_animation_destroy h a =
     (let h1 = animation_unschedule h a
      in h1\<lparr>animations := release (animations h1) a\<rparr>)"

text \<open>
  \<open>destroy_property_animation(&menu->prop_animation)\<close>: nothing for a null pointer;
  otherwise the animation is unscheduled when it is scheduled, destroyed, and the pointer
  is cleared.
\<close>

definition destroy_property_animation :: "world \<Rightarrow> world" where
  "destroy_property_animation w =
     (case prop_animation (menu w) of
        None \<Rightarrow> w
      | Some a \<Rightarrow>
          w\<lparr>host := property_animation_destroy
                      (if animation_is_scheduled (host w) a then animation_unschedule (host w) a
                       else host w) a,
            menu := (menu w)\<lparr>prop_animation := None\<rparr>\<rparr>)"

text \<open>
  \<open>animate_menu\<close>: the target is \<open>-MENU_LAYER_OFFSET\<close> when the layer stands at 0 and
  0 otherwise; the previous animation is destroyed, a new one is created, given
  \<open>animation_out_stopped\<close> as its stopped handler when the target is not 0, and
  scheduled.
\<close>

definition MENU_LAYER_OFFSET :: int where
  "MENU_LAYER_OFFSET = 14"

definition animate_menu :: "world \<Rightarrow> world" where
  "animate_menu w =
     (let target = (if frame_x (host w) = 0 then - MENU_LAYER_OFFSET else 0);
          w1 = destroy_property_animation w;
          (a, am) = alloc (animations (host w1)) \<lparr>to_x = target, stopped = (target \<noteq> 0)\<rparr>
      in w1\<lparr>menu := (menu w1)\<lparr>prop_animation := Some a\<rparr>,
            host := (host w1)\<lparr>animations := am, scheduled := scheduled (host w1) @ [a]\<rparr>\<rparr>)"

text \<open>\<open>animation_out_stopped\<close>, the stopped handler of the slide out.\<close>

definition animation_out_stopped :: "world \<Rightarrow> world" where
  "animation_out_stopped w =
     animate_menu
       (w\<lparr>menu := (menu w)\<lparr>current_level := tmp_level (menu w), tmp_level := None\<rparr>,
          host := (host w)\<lparr>selected_row := 0, reloads := Suc (reloads (host w))\<rparr>\<rparr>)"

text \<open>
  Modelled from the spec: the host brings a scheduled animation to its end
  (\<open>schedule_slide\<close> invokes \<open>on_complete\<close> once): the layer stands at the target,
  the animation is no longer scheduled, and its stopped handler runs when it has one.
\<close>

definition animation_completes :: "world \<Rightarrow> nat \<Rightarrow> world" where
  "animation_completes w a =
     (case deref (animations (host w)) a of
        None \<Rightarrow> w
      | Some an \<Rightarrow>
          if a \<in> set (scheduled (host w)) then
            (let w1 = w\<lparr>host := (host w)\<lparr>frame_x := to_x an,
                                         scheduled := removeAll a (scheduled (host w))\<rparr>\<rparr>
             in if stopped an then animation_out_stopped w1 else w1)
          else w)"

text \<open>
  Modelled from the spec: the event loop calls the stopped handler that is due first, for
  an animation that was unscheduled before its end.
\<close>

definition animation_stopped_delivered :: "world \<Rightarrow> world" where
  "animation_stopped_delivered w =
     (case stopped_due (host w) of
        [] \<Rightarrow> w
      | a # due \<Rightarrow> animation_out_stopped (w\<lparr>host := (host w)\<lparr>stopped_due := due\<rparr>\<rparr>))"

text \<open>
  \<open>select_click_handler\<close>. The row is read from the menu layer and indexes the item
  array of the current level unchecked.
\<close>

definition select_click_handler :: "callbacks \<Rightarrow> world \<Rightarrow> fault + world" where
  "select_click_handler perform w =
     (if frozen (menu w) then Inr w
      else
        (case current_level (menu w) of
           None \<Rightarrow> Inl NullPointer
         | Some l \<Rightarrow>
             (case deref (level_mem (mem w)) l of
                None \<Rightarrow> Inl DanglingPointer
              | Some L \<Rightarrow>
                  if length (items L) \<le> unat (selected_row (host w)) then Inl OutOfBounds
                  else
                    (case items L ! unat (selected_row (host w)) of
                       None \<Rightarrow> Inl NullPointer
                     | Some ip \<Rightarrow>
                         (case deref (item_mem (mem w)) ip of
                            None \<Rightarrow> Inl DanglingPointer
                          | Some it \<Rightarrow>
                              (case child it of
                                 Some c \<Rightarrow>
                                   Inr (animate_menu (w\<lparr>menu := (menu w)\<lparr>tmp_level := Some c\<rparr>\<rparr>))
                               | None \<Rightarrow>
                                   (case cb it of
                                      None \<Rightarrow> Inr w
                                    | Some f \<Rightarrow>
                                        (let w1 = w\<lparr>menu := (menu w)\<lparr>performed_action := Some ip\<rparr>\<rparr>;
                                             w2 = perform f ip (app_context (config (menu w1))) w1
                                         in if frozen (menu w2) then Inr w2
                                            else
                                              Inr (w2\<lparr>host :=
                                                     window_stack_push
                                                       (window_stack_remove (host w2) (window (menu w2)))
                                                       (result_window (menu w2))\<rparr>)))))))))"

text \<open>\<open>back_click_handler\<close>.\<close>

definition back_click_handler :: "world \<Rightarrow> fault + world" where
  "back_click_handler w =
     (if frozen (menu w) then Inr w
      else
        (case current_level (menu w) of
           None \<Rightarrow> Inl NullPointer
         | Some l \<Rightarrow>
             (case deref (level_mem (mem w)) l of
                None \<Rightarrow> Inl DanglingPointer
              | Some L \<Rightarrow>
                  (case parent L of
                     Some p \<Rightarrow> Inr (animate_menu (w\<lparr>menu := (menu w)\<lparr>tmp_level := Some p\<rparr>\<rparr>))
                   | None \<Rightarrow>
                       Inr (w\<lparr>host := window_stack_remove (host w) (window (menu w))\<rparr>)))))"

text \<open>
  Modelled from the spec: the host keeps the selected row (\<open>get_selected_row\<close>);
  \<open>menu_layer_set_selected_next\<close> moves it by one row within the rows of the
  current level (\<open>cb_get_num_rows\<close>).
\<close>

definition menu_layer_set_selected_next :: "world \<Rightarrow> bool \<Rightarrow> world" where
  "menu_layer_set_selected_next w up =
     (let row = selected_row (host w);
          rows = (case current_level (menu w) of
                    None \<Rightarrow> 0
                  | Some l \<Rightarrow>
                      (case deref (level_mem (mem w)) l of
                         None \<Rightarrow> 0
                       | Some L \<Rightarrow> num_items L))
      in if up then (if row = 0 then w else w\<lparr>host := (host w)\<lparr>selected_row := row - 1\<rparr>\<rparr>)
         else (if unat row + 1 < unat rows then w\<lparr>host := (host w)\<lparr>selected_row := row + 1\<rparr>\<rparr>
               else w))"

text \<open>\<open>up_click_handler\<close> and \<open>down_click_handler\<close>.\<close>

definition up_click_handler :: "world \<Rightarrow> world" where
  "up_click_handler w = (if frozen (menu w) then w else menu_layer_set_selected_next w True)"

definition down_click_handler :: "world \<Rightarrow> world" where
  "down_click_handler w = (if frozen (menu w) then w else menu_layer_set_selected_next w False)"

text \<open>
  \<open>action_menu_open\<close>: null for a null configuration or when the session cannot be
  allocated; the configuration is copied into a block whose allocation is not checked.
  The window is created and pushed; once loaded its background layer stands at 0 and the
  menu layer selects row 0.
\<close>

definition action_menu_open ::
  "pebble \<Rightarrow> ActionMenuConfig option \<Rightarrow> bool \<Rightarrow> bool \<Rightarrow> fault + (ActionMenu option \<times> pebble)" where
  "action_menu_open h cfg ok_menu ok_config =
     (case cfg of
        None \<Rightarrow> Inr (None, h)
      | Some c \<Rightarrow>
          if \<not> ok_menu then Inr (None, h)
          else if \<not> ok_config then Inl NullPointer
          else
            Inr (Some \<lparr>current_level = root_level c, tmp_level = None, performed_action = None,
                       config = c, result_window = None, frozen = False,
                       window = Some (windows h), prop_animation = None\<rparr>,
                 h\<lparr>windows := Suc (windows h), window_stack := windows h # window_stack h,
                   frame_x := 0, selected_row := 0\<rparr>))"

text \<open>
  The operations on a session pointer. The argument is the session the pointer refers to,
  or \<open>None\<close> for the null pointer; an operation that writes returns the session as it is
  afterwards.
\<close>

definition action_menu_get_context :: "ActionMenu option \<Rightarrow> nat option" where
  "action_menu_get_context action_menu =
     (case action_menu of
        None \<Rightarrow> None
      | Some m \<Rightarrow> app_context (config m))"

definition action_menu_get_root_level :: "ActionMenu option \<Rightarrow> nat option" where
  "action_menu_get_root_level action_menu =
     (case action_menu of
        None \<Rightarrow> None
      | Some m \<Rightarrow> current_level m)"

definition action_menu_freeze :: "ActionMenu option \<Rightarrow> ActionMenu option" where
  "action_menu_freeze action_menu =
     (case action_menu of
        None \<Rightarrow> None
      | Some m \<Rightarrow> Some (m\<lparr>frozen := True\<rparr>))"

definition action_menu_unfreeze :: "ActionMenu option \<Rightarrow> ActionMenu option" where
  "action_menu_unfreeze action_menu =
     (case action_menu of
        None \<Rightarrow> None
      | Some m \<Rightarrow> Some (m\<lparr>frozen := False\<rparr>))"

definition action_menu_set_result_window :: "ActionMenu option \<Rightarrow> nat option \<Rightarrow> ActionMenu option" where
  "action_menu_set_result_window action_menu wnd =
     (case action_menu of
        None \<Rightarrow> None
      | Some m \<Rightarrow> Some (m\<lparr>result_window := wnd\<rparr>))"

definition action_menu_close :: "pebble \<Rightarrow> ActionMenu option \<Rightarrow> bool \<Rightarrow> fault + pebble" where
  "action_menu_close h action_menu animated =
     (case action_menu of
        None \<Rightarrow> Inl NullPointer
      | Some m \<Rightarrow> Inr (window_stack_push (window_stack_remove h (window m)) (result_window m)))"

definition empty_memory :: memory where
  "empty_memory = \<lparr>level_mem = [], item_mem = []\<rparr>"

section \<open>Example hierarchies\<close>

text \<open>Two fresh levels of capacity 1, at the addresses 0 and 1.\<close>

definition two_levels :: memory where
  "two_levels =
     \<lparr>level_mem =
        [Some \<lparr>max_items = 1, num_items = 0, items = [None],
               display_mode = ActionMenuLevelDisplayModeWide, level = 1, parent = None\<rparr>,
         Some \<lparr>max_items = 1, num_items = 0, items = [None],
               display_mode = ActionMenuLevelDisplayModeWide, level = 1, parent = None\<rparr>],
      item_mem = []\<rparr>"

text \<open>
  The scenario of the spec's section 8: a root of capacity 2 at address 0 with the action
  \<open>A\<close> and the submenu \<open>B\<close>, whose level of capacity 1 at address 1 holds the
  action \<open>C\<close>. The items are at the addresses 0, 1 and 2.
\<close>

definition menu_tree :: memory where
  "menu_tree =
     \<lparr>level_mem =
        [Some \<lparr>max_items = 2, num_items = 2, items = [Some 0, Some 1],
               display_mode = ActionMenuLevelDisplayModeWide, level = 1, parent = None\<rparr>,
         Some \<lparr>max_items = 1, num_items = 1, items = [Some 2],
               display_mode = ActionMenuLevelDisplayModeWide, level = 2, parent = Some 0\<rparr>],
      item_mem =
        [Some \<lparr>label = Some ''A'', action_data = None, cb = Some 7, child = None\<rparr>,
         Some \<lparr>label = Some ''B'', action_data = None, cb = None, child = Some 1\<rparr>,
         Some \<lparr>label = Some ''C'', action_data = None, cb = Some 8, child = None\<rparr>]\<rparr>"

text \<open>A root whose two items both link to the level at address 1.\<close>

definition shared_child :: memory where
  "shared_child =
     \<lparr>level_mem =
        [Some \<lparr>max_items = 2, num_items = 2, items = [Some 1, Some 2],
               display_mode = ActionMenuLevelDisplayModeWide, level = 1, parent = None\<rparr>,
         Some \<lparr>max_items = 1, num_items = 1, items = [Some 0],
               display_mode = ActionMenuLevelDisplayModeWide, level = 2, parent = Some 0\<rparr>],
      item_mem =
        [Some \<lparr>label = Some ''C'', action_data = None, cb = Some 8, child = None\<rparr>,
         Some \<lparr>label = Some ''B1'', action_data = None, cb = None, child = Some 1\<rparr>,
         Some \<lparr>label = Some ''B2'', action_data = None, cb = None, child = Some 1\<rparr>]\<rparr>"

text \<open>
  \<open>adds_to p op\<close>: the call \<open>op\<close> is an \<open>add_action\<close> or \<open>add_child\<close> on the
  level at \<open>p\<close>. \<open>successful_adds p ops rs\<close> counts the calls among \<open>ops\<close> that
  add to \<open>p\<close> and returned an item (\<open>rs\<close> are the values the calls returned).
\<close>

fun adds_to :: "nat \<Rightarrow> builder_op \<Rightarrow> bool" where
  "adds_to p (AddAction lvl lbl cbf data ok_item ok_label) = (lvl = Some p)"
| "adds_to p (AddChild lvl chd lbl ok_item ok_label) = (lvl = Some p)"
| "adds_to p (Create n ok_level ok_items) = False"
| "adds_to p (SetDisplayMode lvl mode) = False"

fun successful_adds :: "nat \<Rightarrow> builder_op list \<Rightarrow> nat option list \<Rightarrow> nat" where
  "successful_adds p (op # ops) (r # rs) =
     (if adds_to p op \<and> r \<noteq> None then 1 else 0) + successful_adds p ops rs"
| "successful_adds p ops rs = 0"

text \<open>
  \<open>slot_of s p i\<close>: the item pointer in slot \<open>i\<close> of the level at \<open>p\<close>, when
  the slot is one of the level's \<open>num_items\<close> filled slots. \<open>child_of s p i\<close>: the
  level that this item links to. \<open>links s\<close> lists every such link as the pair of the
  owning level and the child.
\<close>

definition slot_of :: "memory \<Rightarrow> nat \<Rightarrow> nat \<Rightarrow> nat option" where
  "slot_of s p i =
     (case deref (level_mem s) p of
        None \<Rightarrow> None
      | Some L \<Rightarrow> if i < unat (num_items L) \<and> i < length (items L) then items L ! i else None)"

definition child_of :: "memory \<Rightarrow> nat \<Rightarrow> nat \<Rightarrow> nat option" where
  "child_of s p i =
     (case slot_of s p i of
        None \<Rightarrow> None
      | Some ip \<Rightarrow>
          (case deref (item_mem s) ip of
             None \<Rightarrow> None
           | Some it \<Rightarrow> child it))"

definition links :: "memory \<Rightarrow> (nat \<times> nat) list" where
  "links s =
     concat (map (\<lambda>p.
       concat (map (\<lambda>i. case child_of s p i of None \<Rightarrow> [] | Some c \<Rightarrow> [(p, c)])
         [0..<(case deref (level_mem s) p of None \<Rightarrow> 0 | Some L \<Rightarrow> length (items L))]))
       [0..<length (level_mem s)])"

text \<open>
  The depth invariant: along every link between two live levels the child's depth is
  the owner's depth plus one, in the 16 bits of the field.
\<close>

definition depth_ok :: "memory \<Rightarrow> bool" where
  "depth_ok s =
     (\<forall>(p, c) \<in> set (links s).
        case deref (level_mem s) p of
          None \<Rightarrow> True
        | Some L \<Rightarrow>
            (case deref (level_mem s) c of
               None \<Rightarrow> True
             | Some C \<Rightarrow> level C = level L + 1))"

text \<open>
  Building top-down: a call of \<open>add_child\<close> is top-down when the child is not the
  level itself, is not yet linked from any item, and has no item with a child of its own.
  A run is top-down when each of its successful \<open>add_child\<close> calls is.
\<close>

fun top_down :: "memory \<Rightarrow> builder_op \<Rightarrow> bool" where
  "top_down s (AddChild lvl chd lbl ok_item ok_label) =
     (case chd of
        None \<Rightarrow> True
      | Some c \<Rightarrow> lvl \<noteq> Some c \<and> c \<notin> snd ` set (links s) \<and> c \<notin> fst ` set (links s))"
| "top_down s op = True"

fun top_down_run :: "memory \<Rightarrow> builder_op list \<Rightarrow> bool" where
  "top_down_run s [] = True"
| "top_down_run s (op # ops) =
     (case step s op of
        Inl e \<Rightarrow> True
      | Inr (r, s1) \<Rightarrow> (r = None \<or> top_down s op) \<and> top_down_run s1 ops)"

text \<open>The levels that were the child argument of a successful \<open>add_child\<close> of a run.\<close>

fun attached :: "builder_op list \<Rightarrow> nat option list \<Rightarrow> nat list" where
  "attached (AddChild lvl (Some c) lbl ok_item ok_label # ops) (Some ip # rs) =
     c # attached ops rs"
| "attached (op # ops) (r # rs) = attached ops rs"
| "attached ops rs = []"

text \<open>Three levels, built bottom-up: the level at 2 is linked below 1 before 1 is linked below 0.\<close>

definition bottom_up :: memory where
  "bottom_up =
     \<lparr>level_mem =
        [Some \<lparr>max_items = 1, num_items = 1, items = [Some 1],
               display_mode = ActionMenuLevelDisplayModeWide, level = 1, parent = None\<rparr>,
         Some \<lparr>max_items = 1, num_items = 1, items = [Some 0],
               display_mode = ActionMenuLevelDisplayModeWide, level = 2, parent = Some 0\<rparr>,
         Some \<lparr>max_items = 1, num_items = 0, items = [None],
               display_mode = ActionMenuLevelDisplayModeWide, level = 2, parent = Some 1\<rparr>],
      item_mem =
        [Some \<lparr>label = Some ''B'', action_data = None, cb = None, child = Some 2\<rparr>,
         Some \<lparr>label = Some ''A'', action_data = None, cb = None, child = Some 1\<rparr>]\<rparr>"

text \<open>
  What the builder keeps true of the pointers it stores: the item pointer in a filled
  slot and the child pointer of a linked item are addresses that have been allocated.
\<close>

definition links_ok :: "memory \<Rightarrow> bool" where
  "links_ok s =
     ((\<forall>p i ip. slot_of s p i = Some ip \<longrightarrow> ip < length (item_mem s)) \<and>
      (\<forall>p i c. child_of s p i = Some c \<longrightarrow> c < length (level_mem s)))"

text \<open>The builder frees nothing: every allocated level address holds a level.\<close>

definition all_live :: "memory \<Rightarrow> bool" where
  "all_live s = (\<forall>q < length (level_mem s). deref (level_mem s) q \<noteq> None)"

text \<open>
  \<open>selected_item w\<close>: the item the selection is on, as \<open>select_click_handler\<close>
  reads it (the pointer in slot \<open>row\<close> of the current level, and the item there), when
  every pointer on the way is valid.
\<close>

definition selected_item :: "world \<Rightarrow> (nat \<times> ActionMenuItem) option" where
  "selected_item w =
     (case current_level (menu w) of
        None \<Rightarrow> None
      | Some l \<Rightarrow>
          (case deref (level_mem (mem w)) l of
             None \<Rightarrow> None
           | Some L \<Rightarrow>
               if length (items L) \<le> unat (selected_row (host w)) then None
               else
                 (case items L ! unat (selected_row (host w)) of
                    None \<Rightarrow> None
                  | Some ip \<Rightarrow>
                      (case deref (item_mem (mem w)) ip of
                         None \<Rightarrow> None
                       | Some it \<Rightarrow> Some (ip, it)))))"

text \<open>\<open>current_parent w\<close>: \<open>menu->current_level->parent\<close>, as \<open>back_click_handler\<close> reads it.\<close>

definition current_parent :: "world \<Rightarrow> nat option option" where
  "current_parent w =
     (case current_level (menu w) of
        None \<Rightarrow> None
      | Some l \<Rightarrow> map_option parent (deref (level_mem (mem w)) l))"

text \<open>
  At most one animation is in flight: whatever is scheduled is the animation the
  session's \<open>prop_animation\<close> points to, once; and that pointer is the address of
  an animation that was created.
\<close>

definition one_animation :: "world \<Rightarrow> bool" where
  "one_animation w =
     (case prop_animation (menu w) of
        None \<Rightarrow> scheduled (host w) = []
      | Some a \<Rightarrow>
          a < length (animations (host w)) \<and>
          (scheduled (host w) = [] \<or> scheduled (host w) = [a]))"


text \<open>
  \<open>stopped_owed w\<close>: the stopped handler the host owes for the session's animation,
  when that animation is scheduled and has one (it is a slide out in flight).
\<close>

definition stopped_owed :: "world \<Rightarrow> nat list" where
  "stopped_owed w =
     (case prop_animation (menu w) of
        None \<Rightarrow> []
      | Some a \<Rightarrow>
          if a \<in> set (scheduled (host w)) then
            (case deref (animations (host w)) a of
               None \<Rightarrow> []
             | Some an \<Rightarrow> if stopped an then [a] else [])
          else [])"

text \<open>
  A session opened on the scenario's root, idle, with the selection on row \<open>row\<close>; and
  callbacks of the application: the one at address 8 (item \<open>C\<close>) freezes the session
  it is given, the one at address 7 (item \<open>A\<close>) sets the result window 5.
\<close>

definition idle_host :: pebble where
  "idle_host =
     \<lparr>window_stack = [0], windows = 1, frame_x = 0, selected_row = 0, reloads = 0,
      animations = [], scheduled = [], stopped_due = []\<rparr>"

definition root_session :: ActionMenu where
  "root_session =
     \<lparr>current_level = Some 0, tmp_level = None, performed_action = None,
      config = \<lparr>root_level = Some 0, app_context = Some 42, will_close = None, did_close = None\<rparr>,
      result_window = None, frozen = False, window = Some 0, prop_animation = None\<rparr>"

definition session_on_row :: "16 word \<Rightarrow> world" where
  "session_on_row row =
     \<lparr>mem = menu_tree, menu = root_session, host = idle_host\<lparr>selected_row := row\<rparr>\<rparr>"

definition app_callbacks :: callbacks where
  "app_callbacks f item ctx w =
     (if f = 8 then
        (case action_menu_freeze (Some (menu w)) of
           None \<Rightarrow> w
         | Some m \<Rightarrow> w\<lparr>menu := m\<rparr>)
      else if f = 7 then
        (case action_menu_set_result_window (Some (menu w)) (Some 5) of
           None \<Rightarrow> w
         | Some m \<Rightarrow> w\<lparr>menu := m\<rparr>)
      else w)"

text \<open>
  The scenario's session in a transition: \<open>Select\<close> was pressed on row 1 (the submenu
  \<open>B\<close>) and the slide out is in flight.
\<close>

definition transitioning :: world where
  "transitioning =
     animate_menu
       ((session_on_row 1)\<lparr>menu := (menu (session_on_row 1))\<lparr>tmp_level := Some 1\<rparr>\<rparr>)"

text \<open>The scenario's session, frozen, with the selection on the submenu \<open>B\<close>.\<close>

definition frozen_session :: world where
  "frozen_session = (session_on_row 1)\<lparr>menu := root_session\<lparr>frozen := True\<rparr>\<rparr>"

text \<open>
  The scenario's session after a descent into the submenu \<open>B\<close>: level 1 is displayed and the
  selection is on its only item \<open>C\<close>, whose callback 8 freezes the session.
\<close>

definition session_in_submenu :: world where
  "session_in_submenu =
     (session_on_row 0)\<lparr>menu := root_session\<lparr>current_level := Some 1\<rparr>\<rparr>"



section \<open>Properties\<close>

subsection \<open>Memory\<close>

lemma deref_alloc:
  "deref (snd (alloc m v)) p = (if p = fst (alloc m v) then Some v else deref m p)"
  by (auto simp: deref_def alloc_def nth_append)

lemma two_levels_built:
  "run empty_memory [Create 1 True True, Create 1 True True] = Inr ([Some 0, Some 1], two_levels)"
  by (simp add: empty_memory_def two_levels_def action_menu_level_create_def alloc_def)

subsection \<open>A failed \<open>add_child\<close> and the child\<close>

text \<open>
  A call that fails for an absent level, a full level or a failed item allocation leaves
  the memory as it was, and no failing call changes a depth.
\<close>

lemma add_child_failure_unchanged:
  assumes "action_menu_level_add_child s lvl chd lbl ok_item ok_label = Inr (None, s')"
    and "lbl = None \<or> ok_label \<or> \<not> ok_item"
  shows "s' = s"
  using assms
  by (auto simp: action_menu_level_add_child_def alloc_def Let_def
           split: option.splits if_splits)

lemma add_child_failure_depth:
  assumes "action_menu_level_add_child s lvl chd lbl ok_item ok_label = Inr (None, s')"
  shows "map_option level (deref (level_mem s') q) = map_option level (deref (level_mem s) q)"
  using assms
  by (cases "chd = Some q")
     (auto simp: action_menu_level_add_child_def alloc_def Let_def set_level_def deref_def
           split: option.splits if_splits)

text \<open>
  Claim C2 says that a failed \<open>action_menu_level_add_child\<close> leaves the child's
  \<open>parent\<close> and \<open>depth\<close> as they were. The code assigns \<open>child->parent\<close> before it
  allocates the label and returns early when that allocation fails: with two fresh
  levels, a label and a failing label allocation, the call returns null and the child at
  address 1 has the level at address 0 as its parent, where it had none before. Its depth
  is unchanged.
\<close>

theorem add_child_label_failure_sets_parent:
  "action_menu_level_add_child two_levels (Some 0) (Some 1) (Some ''Sub'') True False =
     Inr (None,
          two_levels\<lparr>level_mem := (level_mem two_levels)[1 :=
            Some \<lparr>max_items = 1, num_items = 0, items = [None],
                  display_mode = ActionMenuLevelDisplayModeWide, level = 1,
                  parent = Some 0\<rparr>]\<rparr>) \<and>
   map_option parent (deref (level_mem two_levels) 1) = Some None"
  by (simp add: two_levels_def action_menu_level_add_child_def deref_def set_level_def)

subsection \<open>Null arguments\<close>

text \<open>
  On a null target the operations return without touching anything, the getters return
  null; \<open>action_menu_close\<close> dereferences the session unchecked.
\<close>

lemma null_targets_are_noops:
  "action_menu_item_get_label s None = Inr None \<and>
   action_menu_item_get_action_data s None = Inr None \<and>
   action_menu_level_set_display_mode s None mode = Inr s \<and>
   action_menu_level_add_action s None lbl cbf data ok_item ok_label = Inr (None, s) \<and>
   action_menu_level_add_child s None chd lbl ok_item ok_label = Inr (None, s) \<and>
   action_menu_hierarchy_destroy fuel s None each_cb = Inr ([], s) \<and>
   action_menu_get_context None = None \<and>
   action_menu_get_root_level None = None \<and>
   action_menu_open h None ok_menu ok_config = Inr (None, h) \<and>
   action_menu_freeze None = None \<and>
   action_menu_unfreeze None = None \<and>
   action_menu_set_result_window None wnd = None \<and>
   action_menu_close h None animated = Inl NullPointer"
  by (simp add: action_menu_item_get_label_def action_menu_item_get_action_data_def
        action_menu_level_set_display_mode_def action_menu_level_add_action_def
        action_menu_level_add_child_def action_menu_hierarchy_destroy_def
        action_menu_get_context_def action_menu_get_root_level_def action_menu_open_def
        action_menu_freeze_def action_menu_unfreeze_def action_menu_set_result_window_def
        action_menu_close_def)

text \<open>
  Claim C9 says that every operation but \<open>close\<close> is a safe no-op on a null target,
  \<open>add_child\<close> for its child argument too. The code guards \<open>level\<close> but
  dereferences \<open>child\<close> unchecked in \<open>child->parent = level\<close>: on a level with room
  and a successful item allocation, a null child is a null pointer dereference.
\<close>

theorem add_child_null_child_faults:
  "action_menu_level_add_child two_levels (Some 0) None lbl True ok_label = Inl NullPointer"
  by (simp add: two_levels_def action_menu_level_add_child_def deref_def)

subsection \<open>Destroying a tree\<close>

lemma deref_release: "deref (release m p) q = (if q = p then None else deref m q)"
  by (auto simp: deref_def release_def)

lemma shape_at_cong:
  "(\<forall>q \<in> set (p # sublevels t). deref (level_mem s') q = deref (level_mem s) q) \<Longrightarrow>
   (\<forall>q \<in> set (postorder t). deref (item_mem s') q = deref (item_mem s) q) \<Longrightarrow>
   shape_at s' p i t = shape_at s p i t"
proof (induction t arbitrary: p i)
  case Done
  then show ?case by simp
next
  case (Leaf ip rest)
  have b: "shape_at s' p (Suc i) rest = shape_at s p (Suc i) rest"
    using Leaf.prems by (intro Leaf.IH) auto
  have c: "deref (level_mem s') p = deref (level_mem s) p"
    and d: "deref (item_mem s') ip = deref (item_mem s) ip"
    using Leaf.prems by auto
  show ?case by (simp add: b c d split: option.split)
next
  case (Sub ip c sub rest)
  have a: "shape_at s' c 0 sub = shape_at s c 0 sub"
    using Sub.prems by (intro Sub.IH(1)) auto
  have b: "shape_at s' p (Suc i) rest = shape_at s p (Suc i) rest"
    using Sub.prems by (intro Sub.IH(2)) auto
  have c: "deref (level_mem s') p = deref (level_mem s) p"
    and d: "deref (item_mem s') ip = deref (item_mem s) ip"
    using Sub.prems by auto
  show ?case by (simp add: a b c d split: option.split)
qed

lemma destroy_items_tree:
  "shape_at s p i t \<Longrightarrow> distinct (p # sublevels t) \<Longrightarrow> distinct (postorder t) \<Longrightarrow>
   fuel_for t \<le> n \<Longrightarrow>
   \<exists>s'. destroy_items n s p i each_cb = Inr (if each_cb = None then [] else postorder t, s') \<and>
        (\<forall>q. deref (level_mem s') q =
              (if q \<in> set (p # sublevels t) then None else deref (level_mem s) q)) \<and>
        (\<forall>q. deref (item_mem s') q =
              (if q \<in> set (postorder t) then None else deref (item_mem s) q))"
proof (induction t arbitrary: s p i n)
  case Done
  then obtain m where n: "n = Suc m" by (cases n) auto
  from Done show ?case
    by (auto simp: n deref_release split: option.splits)
next
  case (Leaf ip rest)
  then obtain m where n: "n = Suc m" and m: "fuel_for rest \<le> m" by (cases n) auto
  from Leaf.prems obtain L it where
    L: "deref (level_mem s) p = Some L" "i < unat (num_items L)" "i < length (items L)"
       "items L ! i = Some ip"
    and it: "deref (item_mem s) ip = Some it" "child it = None"
    and rest: "shape_at s p (Suc i) rest"
    by (auto split: option.splits)
  let ?s1 = "s\<lparr>item_mem := release (item_mem s) ip\<rparr>"
  have "shape_at ?s1 p (Suc i) rest = shape_at s p (Suc i) rest"
    using Leaf.prems by (intro shape_at_cong) (auto simp: deref_release)
  with rest have r1: "shape_at ?s1 p (Suc i) rest" by simp
  from Leaf.IH[OF r1 _ _ m] Leaf.prems obtain s' where
    s': "destroy_items m ?s1 p (Suc i) each_cb = Inr (if each_cb = None then [] else postorder rest, s')"
        "\<forall>q. deref (level_mem s') q =
              (if q \<in> set (p # sublevels rest) then None else deref (level_mem ?s1) q)"
        "\<forall>q. deref (item_mem s') q =
              (if q \<in> set (postorder rest) then None else deref (item_mem ?s1) q)"
    by auto
  show ?case
    using L it s' by (auto simp: n deref_release)
next
  case (Sub ip c sub rest)
  then obtain m where n: "n = Suc m" and m: "fuel_for sub \<le> m" "fuel_for rest \<le> m"
    by (cases n) auto
  from Sub.prems obtain L it where
    L: "deref (level_mem s) p = Some L" "i < unat (num_items L)" "i < length (items L)"
       "items L ! i = Some ip"
    and it: "deref (item_mem s) ip = Some it" "child it = Some c"
    and sub: "shape_at s c 0 sub"
    and rest: "shape_at s p (Suc i) rest"
    by (auto split: option.splits)
  from Sub.IH(1)[OF sub _ _ m(1)] Sub.prems obtain s1 where
    s1: "destroy_items m s c 0 each_cb = Inr (if each_cb = None then [] else postorder sub, s1)"
        "\<forall>q. deref (level_mem s1) q =
              (if q \<in> set (c # sublevels sub) then None else deref (level_mem s) q)"
        "\<forall>q. deref (item_mem s1) q =
              (if q \<in> set (postorder sub) then None else deref (item_mem s) q)"
    by auto
  have ip1: "deref (item_mem s1) ip = Some it"
    using s1(3) it Sub.prems by auto
  let ?s2 = "s1\<lparr>item_mem := release (item_mem s1) ip\<rparr>"
  have "shape_at ?s2 p (Suc i) rest = shape_at s p (Suc i) rest"
    using Sub.prems s1(2,3) by (intro shape_at_cong) (auto simp: deref_release)
  with rest have r2: "shape_at ?s2 p (Suc i) rest" by simp
  from Sub.IH(2)[OF r2 _ _ m(2)] Sub.prems obtain s' where
    s': "destroy_items m ?s2 p (Suc i) each_cb = Inr (if each_cb = None then [] else postorder rest, s')"
        "\<forall>q. deref (level_mem s') q =
              (if q \<in> set (p # sublevels rest) then None else deref (level_mem ?s2) q)"
        "\<forall>q. deref (item_mem s') q =
              (if q \<in> set (postorder rest) then None else deref (item_mem ?s2) q)"
    by auto
  show ?case
    using L it s1 ip1 s' by (auto simp: n deref_release)
qed

lemma count_items_append: "count_items s (ps @ qs) = count_items s ps + count_items s qs"
  by (induction ps) auto

lemma shape_at_count:
  "shape_at s p i t \<Longrightarrow>
   count_items s [p] + count_items s (sublevels t) = i + length (postorder t)"
proof (induction t arbitrary: p i)
  case Done
  then show ?case by (auto split: option.splits)
next
  case (Leaf ip rest)
  from Leaf.prems have "shape_at s p (Suc i) rest" by (auto split: option.splits)
  from Leaf.IH[OF this] show ?case by simp
next
  case (Sub ip c sub rest)
  from Sub.prems have a: "shape_at s c 0 sub" and b: "shape_at s p (Suc i) rest"
    by (auto split: option.splits)
  from Sub.IH(1)[OF a] Sub.IH(2)[OF b] show ?case
    by (simp add: count_items_append)
qed

lemma precedes_left: "a \<in> set xs \<Longrightarrow> b \<notin> set xs \<Longrightarrow> b \<in> set ys \<Longrightarrow> precedes a b (xs @ ys)"
  by (induction xs) auto

lemma precedes_append: "precedes a b xs \<Longrightarrow> precedes a b (xs @ ys)"
  by (induction xs) (auto split: if_splits)

lemma precedes_right:
  "a \<notin> set xs \<Longrightarrow> b \<notin> set xs \<Longrightarrow> precedes a b ys \<Longrightarrow> precedes a b (xs @ ys)"
  by (induction xs) auto

lemma precedes_in: "precedes a b xs \<Longrightarrow> a \<in> set xs \<and> b \<in> set xs"
  by (induction xs) (auto split: if_splits)

lemma submenus_postorder:
  "distinct (postorder t) \<Longrightarrow> (ip, ds) \<in> set (submenus t) \<Longrightarrow> d \<in> set ds \<Longrightarrow>
   precedes d ip (postorder t)"
proof (induction t)
  case Done
  then show ?case by simp
next
  case (Leaf ip0 rest)
  then have p: "precedes d ip (postorder rest)" by simp
  with Leaf.prems(1) precedes_in[OF p] show ?case by auto
next
  case (Sub ip0 c sub rest)
  from Sub.prems(2) consider
    (here) "ip = ip0" "ds = postorder sub"
    | (sub) "(ip, ds) \<in> set (submenus sub)"
    | (rest) "(ip, ds) \<in> set (submenus rest)"
    by auto
  then show ?case
  proof cases
    case here
    with Sub.prems show ?thesis by (auto intro!: precedes_left)
  next
    case sub
    with Sub.prems Sub.IH(1) have "precedes d ip (postorder sub)" by simp
    then show ?thesis by (simp add: precedes_append)
  next
    case rest
    with Sub.prems Sub.IH(2) have p: "precedes d ip (postorder rest)" by simp
    from precedes_in[OF p] Sub.prems(1) have
      "d \<notin> set (postorder sub @ [ip0])" "ip \<notin> set (postorder sub @ [ip0])" by auto
    from precedes_right[OF this p] show ?thesis by simp
  qed
qed

lemma submenus_have_child:
  "shape_at s p i t \<Longrightarrow> (ip, ds) \<in> set (submenus t) \<Longrightarrow>
   \<exists>it c. deref (item_mem s) ip = Some it \<and> child it = Some c"
proof (induction t arbitrary: p i)
  case Done
  then show ?case by simp
next
  case (Leaf ip0 rest)
  from Leaf.prems have "shape_at s p (Suc i) rest" by (auto split: option.splits)
  from Leaf.IH[OF this] Leaf.prems(2) show ?case by simp
next
  case (Sub ip0 c sub rest)
  from Sub.prems have a: "shape_at s c 0 sub" and b: "shape_at s p (Suc i) rest"
    by (auto split: option.splits)
  from Sub.prems(2) consider
    (here) "ip = ip0" "ds = postorder sub"
    | (sub) "(ip, ds) \<in> set (submenus sub)"
    | (rest) "(ip, ds) \<in> set (submenus rest)"
    by auto
  then show ?case
  proof cases
    case here
    with Sub.prems(1) show ?thesis by (auto split: option.splits)
  next
    case sub
    with Sub.IH(1)[OF a] show ?thesis by simp
  next
    case rest
    with Sub.IH(2)[OF b] show ?thesis by simp
  qed
qed

lemmas builder_defs =
  action_menu_level_create_def action_menu_level_add_action_def action_menu_level_add_child_def
  action_menu_level_set_display_mode_def set_level_def alloc_def deref_def empty_memory_def

lemma replicate_2: "replicate 2 x = [x, x]"
  by (simp add: numeral_2_eq_2)

lemma menu_tree_built:
  "run empty_memory
     [Create 2 True True, Create 1 True True,
      AddAction (Some 0) (Some ''A'') (Some 7) None True True,
      AddChild (Some 0) (Some 1) (Some ''B'') True True,
      AddAction (Some 1) (Some ''C'') (Some 8) None True True]
   = Inr ([Some 0, Some 1, Some 0, Some 1, Some 2], menu_tree)"
  by (simp add: builder_defs menu_tree_def replicate_2)

lemma shared_child_built:
  "run empty_memory
     [Create 2 True True, Create 1 True True,
      AddAction (Some 1) (Some ''C'') (Some 8) None True True,
      AddChild (Some 0) (Some 1) (Some ''B1'') True True,
      AddChild (Some 0) (Some 1) (Some ''B2'') True True]
   = Inr ([Some 0, Some 1, Some 0, Some 1, Some 2], shared_child)"
  by (simp add: builder_defs shared_child_def replicate_2)

lemma menu_tree_is_tree: "tree_at menu_tree 0 (Leaf 0 (Sub 1 1 (Leaf 2 Done) Done))"
  by code_simp

lemma linked_items_listed:
  "shape_at s p i t \<Longrightarrow> ip \<in> set (postorder t) \<Longrightarrow> deref (item_mem s) ip = Some it \<Longrightarrow>
   child it = Some c \<Longrightarrow> \<exists>ds. (ip, ds) \<in> set (submenus t)"
proof (induction t arbitrary: p i)
  case Done
  then show ?case by simp
next
  case (Leaf ip0 rest)
  from Leaf.prems(1) have r: "shape_at s p (Suc i) rest"
    and n: "\<forall>it0. deref (item_mem s) ip0 = Some it0 \<longrightarrow> child it0 = None"
    by (auto split: option.splits)
  from n Leaf.prems(3,4) have "ip \<noteq> ip0" by auto
  with Leaf.prems(2) have "ip \<in> set (postorder rest)" by simp
  from Leaf.IH[OF r this Leaf.prems(3,4)] show ?case by simp
next
  case (Sub ip0 c0 sub rest)
  from Sub.prems(1) have a: "shape_at s c0 0 sub" and b: "shape_at s p (Suc i) rest"
    by (auto split: option.splits)
  from Sub.prems(2) consider "ip = ip0" | "ip \<in> set (postorder sub)" | "ip \<in> set (postorder rest)"
    by auto
  then show ?case
  proof cases
    case 1
    then show ?thesis by auto
  next
    case 2
    from Sub.IH(1)[OF a 2 Sub.prems(3,4)] show ?thesis by auto
  next
    case 3
    from Sub.IH(2)[OF b 3 Sub.prems(3,4)] show ?thesis by auto
  qed
qed

text \<open>
  Claim C1, as amended. For every hierarchy that is a tree (\<open>tree_at\<close>: no level is
  linked from two items or below itself), \<open>action_menu_hierarchy_destroy\<close> with a
  visitor returns, given fuel for the tree's depth and width, and calls the visitor once
  for each item: the calls are the items in post-order, without repetition, as many as the
  levels of the tree hold items, and every item with a child (each is listed by
  \<open>submenus\<close>) is visited after all the items of that child's subtree. Every level and every item of the tree is freed. With a
  null root the call does nothing.
\<close>

theorem destroy_tree:
  assumes "tree_at s root t" and "fuel_for t \<le> fuel"
  shows "(\<exists>s'. action_menu_hierarchy_destroy fuel s (Some root) (Some f) = Inr (postorder t, s') \<and>
              (\<forall>p \<in> set (root # sublevels t). deref (level_mem s') p = None) \<and>
              (\<forall>ip \<in> set (postorder t). deref (item_mem s') ip = None)) \<and>
         length (postorder t) = count_items s (root # sublevels t) \<and>
         distinct (postorder t) \<and>
         (\<forall>ip \<in> set (postorder t). \<forall>it c. deref (item_mem s) ip = Some it \<longrightarrow>
            child it = Some c \<longrightarrow> (\<exists>ds. (ip, ds) \<in> set (submenus t))) \<and>
         (\<forall>(ip, ds) \<in> set (submenus t). \<forall>d \<in> set ds. precedes d ip (postorder t)) \<and>
         action_menu_hierarchy_destroy fuel s None each_cb = Inr ([], s)"
proof -
  from assms(1) have sh: "shape_at s root 0 t" and dl: "distinct (root # sublevels t)"
    and di: "distinct (postorder t)"
    by (simp_all add: tree_at_def)
  from destroy_items_tree[OF sh dl di assms(2), of "Some f"] obtain s' where
    s': "destroy_items fuel s root 0 (Some f) = Inr (postorder t, s')"
        "\<forall>q. deref (level_mem s') q =
              (if q \<in> set (root # sublevels t) then None else deref (level_mem s) q)"
        "\<forall>q. deref (item_mem s') q =
              (if q \<in> set (postorder t) then None else deref (item_mem s) q)"
    by auto
  have 1: "\<exists>s'. action_menu_hierarchy_destroy fuel s (Some root) (Some f) = Inr (postorder t, s') \<and>
              (\<forall>p \<in> set (root # sublevels t). deref (level_mem s') p = None) \<and>
              (\<forall>ip \<in> set (postorder t). deref (item_mem s') ip = None)"
    using s' by (auto simp: action_menu_hierarchy_destroy_def)
  have 2: "length (postorder t) = count_items s (root # sublevels t)"
    using shape_at_count[OF sh] by simp
  have 3: "\<forall>(ip, ds) \<in> set (submenus t). \<forall>d \<in> set ds. precedes d ip (postorder t)"
    using submenus_postorder[OF di] by auto
  have 4: "action_menu_hierarchy_destroy fuel s None each_cb = Inr ([], s)"
    by (simp add: action_menu_hierarchy_destroy_def)
  have 5: "\<forall>ip \<in> set (postorder t). \<forall>it c. deref (item_mem s) ip = Some it \<longrightarrow>
            child it = Some c \<longrightarrow> (\<exists>ds. (ip, ds) \<in> set (submenus t))"
    using linked_items_listed[OF sh] by blast
  from 1 2 di 3 4 5 show ?thesis by blast
qed

theorem destroy_tree_witness:
  "tree_at menu_tree 0 (Leaf 0 (Sub 1 1 (Leaf 2 Done) Done)) \<and>
   fuel_for (Leaf 0 (Sub 1 1 (Leaf 2 Done) Done)) \<le> 4 \<and>
   (\<exists>s'. action_menu_hierarchy_destroy 4 menu_tree (Some 0) (Some 9) = Inr ([0, 2, 1], s')) \<and>
   count_items menu_tree [0, 1] = 3 \<and>
   precedes 2 1 [0, 2, 1]"
proof -
  have t: "tree_at menu_tree 0 (Leaf 0 (Sub 1 1 (Leaf 2 Done) Done))"
    by code_simp
  have f: "fuel_for (Leaf 0 (Sub 1 1 (Leaf 2 Done) Done)) \<le> 4" by simp
  note d = destroy_tree[OF t f, of 9 None]
  from d obtain s' where
    "action_menu_hierarchy_destroy 4 menu_tree (Some 0) (Some 9) =
       Inr (postorder (Leaf 0 (Sub 1 1 (Leaf 2 Done) Done)), s')"
    by blast
  then have 1: "\<exists>s'. action_menu_hierarchy_destroy 4 menu_tree (Some 0) (Some 9) = Inr ([0, 2, 1], s')"
    by simp
  from d have 2: "count_items menu_tree [0, 1] = 3" by simp
  from d have 3: "precedes 2 1 [0, 2, 1]" by simp
  from t f 1 2 3 show ?thesis by blast
qed

text \<open>
  Claim C1 as stated, for every hierarchy the builder can make, fails: the builder
  accepts a level as the child of two items, and destroying that hierarchy frees the
  child with the first item and reads it again for the second. No amount of fuel makes
  the call complete.
\<close>

theorem destroy_shared_child_counterexample:
  "run empty_memory
     [Create 2 True True, Create 1 True True,
      AddAction (Some 1) (Some ''C'') (Some 8) None True True,
      AddChild (Some 0) (Some 1) (Some ''B1'') True True,
      AddChild (Some 0) (Some 1) (Some ''B2'') True True]
   = Inr ([Some 0, Some 1, Some 0, Some 1, Some 2], shared_child) \<and>
   (\<forall>fuel. \<exists>e. action_menu_hierarchy_destroy fuel shared_child (Some 0) (Some 9) = Inl e)"
proof -
  have "\<exists>e. action_menu_hierarchy_destroy fuel shared_child (Some 0) (Some 9) = Inl e" for fuel
  proof (cases fuel)
    case 0
    then show ?thesis by (simp add: action_menu_hierarchy_destroy_def)
  next
    case (Suc a)
    show ?thesis
    proof (cases a)
      case 0
      with Suc show ?thesis
        by (simp add: action_menu_hierarchy_destroy_def shared_child_def deref_def release_def)
    next
      case (Suc b)
      show ?thesis
      proof (cases b)
        case 0
        with Suc \<open>fuel = Suc a\<close> show ?thesis
          by (simp add: action_menu_hierarchy_destroy_def shared_child_def deref_def release_def)
      next
        case (Suc c)
        with \<open>a = Suc b\<close> \<open>fuel = Suc a\<close> show ?thesis
          by (cases c) (simp_all add: action_menu_hierarchy_destroy_def shared_child_def deref_def release_def)
      qed
    qed
  qed
  with shared_child_built show ?thesis by blast
qed

subsection \<open>Capacity\<close>

lemma unat_inc: "(n::16 word) < m \<Longrightarrow> unat (n + 1) = Suc (unat n)"
  by unat_arith

lemma deref_set_level:
  "deref (level_mem (set_level s q f)) p =
     (if p = q then map_option f (deref (level_mem s) q) else deref (level_mem s) p)"
  by (auto simp: set_level_def deref_def split: option.splits)

lemma item_mem_set_level: "item_mem (set_level s q f) = item_mem s"
  by (simp add: set_level_def split: option.splits)

lemma deref_create:
  "action_menu_level_create s n a b = (r, s') \<Longrightarrow> deref (level_mem s) p = Some L \<Longrightarrow>
   deref (level_mem s') p = Some L"
  by (auto simp: action_menu_level_create_def alloc_def deref_def nth_append split: if_splits)

lemma add_action_level:
  assumes "action_menu_level_add_action s lvl lbl cbf data a b = Inr (r, s')"
    and "deref (level_mem s) p = Some L"
  shows "\<exists>L'. deref (level_mem s') p = Some L' \<and> max_items L' = max_items L \<and>
              length (items L') = length (items L) \<and>
              (if lvl = Some p \<and> r \<noteq> None
               then num_items L < max_items L \<and> num_items L' = num_items L + 1
               else num_items L' = num_items L)"
  using assms
  by (cases "lvl = Some p")
     (auto simp: action_menu_level_add_action_def deref_set_level alloc_def Let_def
           split: option.splits if_splits)

lemma add_child_level:
  assumes "action_menu_level_add_child s lvl chd lbl a b = Inr (r, s')"
    and "deref (level_mem s) p = Some L"
  shows "\<exists>L'. deref (level_mem s') p = Some L' \<and> max_items L' = max_items L \<and>
              length (items L') = length (items L) \<and>
              (if lvl = Some p \<and> r \<noteq> None
               then num_items L < max_items L \<and> num_items L' = num_items L + 1
               else num_items L' = num_items L)"
  using assms
  by (cases "lvl = Some p"; cases "chd = Some p")
     (auto simp: action_menu_level_add_child_def deref_set_level alloc_def Let_def
           split: option.splits if_splits)

lemma set_display_mode_level:
  assumes "action_menu_level_set_display_mode s lvl mode = Inr s'"
    and "deref (level_mem s) p = Some L"
  shows "\<exists>L'. deref (level_mem s') p = Some L' \<and> max_items L' = max_items L \<and>
              length (items L') = length (items L) \<and> num_items L' = num_items L"
  using assms
  by (cases "lvl = Some p")
     (auto simp: action_menu_level_set_display_mode_def deref_set_level
           split: option.splits if_splits)

lemma step_level:
  assumes "step s op = Inr (r, s')" and "deref (level_mem s) p = Some L"
  shows "\<exists>L'. deref (level_mem s') p = Some L' \<and> max_items L' = max_items L \<and>
              length (items L') = length (items L) \<and>
              (if adds_to p op \<and> r \<noteq> None
               then num_items L < max_items L \<and> num_items L' = num_items L + 1
               else num_items L' = num_items L)"
proof (cases op)
  case (Create n a b)
  with assms show ?thesis by (auto dest: deref_create)
next
  case (SetDisplayMode lvl mode)
  with assms set_display_mode_level[of s lvl mode _ p L] show ?thesis
    by (auto split: sum.splits)
next
  case (AddAction lvl lbl cbf data a b)
  with assms add_action_level[of s lvl lbl cbf data a b r s' p L] show ?thesis by simp
next
  case (AddChild lvl chd lbl a b)
  with assms add_child_level[of s lvl chd lbl a b r s' p L] show ?thesis by simp
qed

lemma run_level:
  "run s ops = Inr (rs, s') \<Longrightarrow> deref (level_mem s) p = Some L \<Longrightarrow>
   num_items L \<le> max_items L \<Longrightarrow>
   \<exists>L'. deref (level_mem s') p = Some L' \<and> max_items L' = max_items L \<and>
        length (items L') = length (items L) \<and> num_items L' \<le> max_items L' \<and>
        unat (num_items L') = unat (num_items L) + successful_adds p ops rs"
proof (induction ops arbitrary: s rs L)
  case Nil
  then show ?case by auto
next
  case (Cons op ops)
  from Cons.prems(1) obtain r s1 rs1 where
    st: "step s op = Inr (r, s1)" and rn: "run s1 ops = Inr (rs1, s')" and rs: "rs = r # rs1"
    by (auto split: sum.splits prod.splits)
  from step_level[OF st Cons.prems(2)] obtain L1 where
    L1: "deref (level_mem s1) p = Some L1" "max_items L1 = max_items L"
        "length (items L1) = length (items L)"
        "if adds_to p op \<and> r \<noteq> None
         then num_items L < max_items L \<and> num_items L1 = num_items L + 1
         else num_items L1 = num_items L"
    by blast
  have le: "num_items L1 \<le> max_items L1"
    using L1(2,4) Cons.prems(3) by (auto simp: inc_le split: if_splits)
  have un: "unat (num_items L1) = unat (num_items L) + (if adds_to p op \<and> r \<noteq> None then 1 else 0)"
    using L1(4) by (auto simp: unat_inc split: if_splits)
  from Cons.IH[OF rn L1(1) le] obtain L' where
    "deref (level_mem s') p = Some L'" "max_items L' = max_items L1"
    "length (items L') = length (items L1)" "num_items L' \<le> max_items L'"
    "unat (num_items L') = unat (num_items L1) + successful_adds p ops rs1"
    by blast
  with L1 un rs show ?case by auto
qed

text \<open>
  Claim C3. A level is created with capacity \<open>N\<close> at address \<open>p\<close>, and any sequence
  of builder calls follows (on this level and on others, succeeding or failing). Then the
  level's count is the number of successful \<open>add_action\<close> and \<open>add_child\<close> calls on
  it and never exceeds its capacity, which stays \<open>N\<close>. Once \<open>N\<close> of them have
  succeeded the count is \<open>N\<close>, and a further \<open>add_action\<close> or \<open>add_child\<close> on the
  level, whatever its arguments and whether or not memory is available, returns null and
  leaves the whole memory as it was: the level's count, items, mode, depth and parent, and
  the child it was given.
\<close>

theorem capacity_exhausted:
  assumes "action_menu_level_create s0 N ok_level ok_items = (Some p, s1)"
    and "run s1 ops = Inr (rs, s2)"
  shows "\<exists>L. deref (level_mem s2) p = Some L \<and> max_items L = N \<and>
             num_items L \<le> max_items L \<and>
             unat (num_items L) = successful_adds p ops rs \<and>
             (successful_adds p ops rs = unat N \<longrightarrow>
                num_items L = N \<and>
                action_menu_level_add_action s2 (Some p) lbl cbf data ok_item ok_label =
                  Inr (None, s2) \<and>
                action_menu_level_add_child s2 (Some p) chd lbl ok_item ok_label =
                  Inr (None, s2))"
proof -
  let ?L0 = "\<lparr>max_items = N, num_items = 0, items = replicate (unat N) None,
              display_mode = ActionMenuLevelDisplayModeWide, level = 1, parent = None\<rparr>"
  from assms(1) have p: "deref (level_mem s1) p = Some ?L0"
    by (auto simp: action_menu_level_create_def alloc_def deref_def split: if_splits)
  from run_level[OF assms(2) p] obtain L where
    L: "deref (level_mem s2) p = Some L" "max_items L = N" "num_items L \<le> max_items L"
       "unat (num_items L) = successful_adds p ops rs"
    by auto
  have full: "num_items L = N \<and>
        action_menu_level_add_action s2 (Some p) lbl cbf data ok_item ok_label = Inr (None, s2) \<and>
        action_menu_level_add_child s2 (Some p) chd lbl ok_item ok_label = Inr (None, s2)"
    if "successful_adds p ops rs = unat N"
  proof -
    from that L(4) have "num_items L = N" by (simp add: word_unat_eq_iff)
    with L(1,2) show ?thesis
      by (simp add: action_menu_level_add_action_def action_menu_level_add_child_def)
  qed
  from L full show ?thesis by blast
qed

theorem capacity_exhausted_witness:
  "action_menu_level_create empty_memory 2 True True =
     (Some 0, \<lparr>level_mem = [Some \<lparr>max_items = 2, num_items = 0, items = [None, None],
                  display_mode = ActionMenuLevelDisplayModeWide, level = 1, parent = None\<rparr>],
               item_mem = []\<rparr>) \<and>
   run \<lparr>level_mem = [Some \<lparr>max_items = 2, num_items = 0, items = [None, None],
                  display_mode = ActionMenuLevelDisplayModeWide, level = 1, parent = None\<rparr>],
        item_mem = []\<rparr>
     [Create 1 True True,
      AddAction (Some 0) (Some ''A'') (Some 7) None True True,
      AddChild (Some 0) (Some 1) (Some ''B'') True True,
      AddAction (Some 1) (Some ''C'') (Some 8) None True True]
   = Inr ([Some 1, Some 0, Some 1, Some 2], menu_tree) \<and>
   successful_adds 0
     [Create 1 True True,
      AddAction (Some 0) (Some ''A'') (Some 7) None True True,
      AddChild (Some 0) (Some 1) (Some ''B'') True True,
      AddAction (Some 1) (Some ''C'') (Some 8) None True True]
     [Some 1, Some 0, Some 1, Some 2] = unat (2 :: 16 word) \<and>
   action_menu_level_add_action menu_tree (Some 0) (Some ''D'') (Some 7) None True True =
     Inr (None, menu_tree) \<and>
   action_menu_level_add_child menu_tree (Some 0) (Some 1) (Some ''D'') True True =
     Inr (None, menu_tree)"
proof -
  let ?s1 = "\<lparr>level_mem = [Some \<lparr>max_items = 2, num_items = 0, items = [None, None],
                  display_mode = ActionMenuLevelDisplayModeWide, level = 1, parent = None\<rparr>],
               item_mem = []\<rparr>"
  let ?ops = "[Create 1 True True,
      AddAction (Some 0) (Some ''A'') (Some 7) None True True,
      AddChild (Some 0) (Some 1) (Some ''B'') True True,
      AddAction (Some 1) (Some ''C'') (Some 8) None True True]"
  have c: "action_menu_level_create empty_memory 2 True True = (Some 0, ?s1)"
    by (simp add: builder_defs replicate_2)
  have r: "run ?s1 ?ops = Inr ([Some 1, Some 0, Some 1, Some 2], menu_tree)"
    by (simp add: builder_defs menu_tree_def)
  have n: "successful_adds 0 ?ops [Some 1, Some 0, Some 1, Some 2] = unat (2 :: 16 word)"
    by simp
  from capacity_exhausted[OF c r, of "Some ''D''" "Some 7" None True True "Some 1"] n
  have "action_menu_level_add_action menu_tree (Some 0) (Some ''D'') (Some 7) None True True =
          Inr (None, menu_tree) \<and>
        action_menu_level_add_child menu_tree (Some 0) (Some 1) (Some ''D'') True True =
          Inr (None, menu_tree)"
    by auto
  with c r n show ?thesis by blast
qed

subsection \<open>Depth\<close>

lemma deref_snoc: "deref (m @ [Some v]) q = (if q = length m then Some v else deref m q)"
  by (auto simp: deref_def nth_append)

lemma deref_Some_less: "deref m p = Some v \<Longrightarrow> p < length m"
  by (auto simp: deref_def split: if_splits)

lemma in_links1: "(p, c) \<in> set (links s) \<Longrightarrow> \<exists>i. child_of s p i = Some c"
  unfolding links_def
  apply (simp only: set_concat set_map)
  apply (auto split: option.splits)
  done

lemma in_concat_map: "x \<in> set xs \<Longrightarrow> y \<in> set (f x) \<Longrightarrow> y \<in> set (concat (map f xs))"
  by auto

lemma in_links2:
  assumes "child_of s p i = Some c"
  shows "(p, c) \<in> set (links s)"
proof -
  from assms obtain L where L: "deref (level_mem s) p = Some L" "i < length (items L)"
    by (auto simp: child_of_def slot_of_def split: option.splits if_splits)
  from L(1) have p: "p \<in> set [0..<length (level_mem s)]"
    by (auto dest: deref_Some_less)
  from L have i: "i \<in> set [0..<(case deref (level_mem s) p of None \<Rightarrow> 0 | Some L \<Rightarrow> length (items L))]"
    by simp
  let ?f = "\<lambda>i. case child_of s p i of None \<Rightarrow> [] | Some c \<Rightarrow> [(p, c)]"
  let ?g = "\<lambda>p. concat (map (\<lambda>i. case child_of s p i of None \<Rightarrow> [] | Some c \<Rightarrow> [(p, c)])
         [0..<(case deref (level_mem s) p of None \<Rightarrow> 0 | Some L \<Rightarrow> length (items L))])"
  from assms have "(p, c) \<in> set (?f i)"
    by simp
  with i have "(p, c) \<in> set (?g p)"
    by (rule in_concat_map[where f = ?f])
  with p have "(p, c) \<in> set (concat (map ?g [0..<length (level_mem s)]))"
    by (rule in_concat_map[where f = ?g])
  then show ?thesis
    unfolding links_def .
qed

lemma in_links: "(p, c) \<in> set (links s) \<longleftrightarrow> (\<exists>i. child_of s p i = Some c)"
  using in_links1 in_links2 by blast

lemma depth_okD:
  "depth_ok s \<Longrightarrow> child_of s p i = Some c \<Longrightarrow> deref (level_mem s) p = Some L \<Longrightarrow>
   deref (level_mem s) c = Some C \<Longrightarrow> level C = level L + 1"
proof -
  assume d: "depth_ok s" and c: "child_of s p i = Some c"
    and L: "deref (level_mem s) p = Some L" and C: "deref (level_mem s) c = Some C"
  from c have "(p, c) \<in> set (links s)" by (rule in_links2)
  with d have "case deref (level_mem s) p of None \<Rightarrow> True
     | Some L \<Rightarrow> (case deref (level_mem s) c of None \<Rightarrow> True | Some C \<Rightarrow> level C = level L + 1)"
    unfolding depth_ok_def by blast
  with L C show ?thesis by simp
qed

lemma depth_okI:
  assumes "\<And>p i c L C. child_of s p i = Some c \<Longrightarrow> deref (level_mem s) p = Some L \<Longrightarrow>
        deref (level_mem s) c = Some C \<Longrightarrow> level C = level L + 1"
  shows "depth_ok s"
  unfolding depth_ok_def
proof (clarify)
  fix p c
  assume "(p, c) \<in> set (links s)"
  then obtain i where i: "child_of s p i = Some c" by (auto dest: in_links1)
  show "case deref (level_mem s) p of None \<Rightarrow> True
     | Some L \<Rightarrow> (case deref (level_mem s) c of None \<Rightarrow> True | Some C \<Rightarrow> level C = level L + 1)"
  proof (cases "deref (level_mem s) p")
    case None
    then show ?thesis by simp
  next
    case L: (Some L)
    show ?thesis
    proof (cases "deref (level_mem s) c")
      case None
      with L show ?thesis by simp
    next
      case (Some C)
      with L assms[OF i L Some] show ?thesis by simp
    qed
  qed
qed

lemma links_ok_item: "links_ok s \<Longrightarrow> slot_of s p i = Some ip \<Longrightarrow> ip < length (item_mem s)"
  unfolding links_ok_def by blast

lemma links_ok_child: "links_ok s \<Longrightarrow> child_of s p i = Some c \<Longrightarrow> c < length (level_mem s)"
  unfolding links_ok_def by blast

lemma slot_of_set_level:
  assumes "\<And>L. num_items (f L) = num_items L" and "\<And>L. items (f L) = items L"
  shows "slot_of (set_level s q f) p i = slot_of s p i"
  by (cases "p = q")
     (auto simp: slot_of_def deref_set_level assms split: option.splits)

lemma child_of_set_level:
  assumes "\<And>L. num_items (f L) = num_items L" and "\<And>L. items (f L) = items L"
  shows "child_of (set_level s q f) p i = child_of s p i"
  by (simp add: child_of_def slot_of_set_level[of f, OF assms] item_mem_set_level
           cong: option.case_cong)

lemma level_set_level:
  assumes "\<And>L. level (f L) = level L"
  shows "map_option level (deref (level_mem (set_level s q f)) p) =
         map_option level (deref (level_mem s) p)"
  by (cases "deref (level_mem s) q") (auto simp: deref_set_level assms)

lemma length_set_level: "length (level_mem (set_level s q f)) = length (level_mem s)"
  by (simp add: set_level_def split: option.splits)

text \<open>The last statements of both add functions: the new item goes into slot \<open>num_items\<close>.\<close>

lemma slot_of_new_item:
  assumes L: "deref (level_mem s) l = Some L" "num_items L < max_items L"
           "unat (num_items L) < length (items L)"
    and s': "s' = set_level
               (set_level (s\<lparr>item_mem := im\<rparr>) l
                  (\<lambda>L. L\<lparr>items := (items L)[unat (num_items L) := Some ip]\<rparr>))
               l (\<lambda>L. L\<lparr>num_items := num_items L + 1\<rparr>)"
  shows "slot_of s' p i = (if p = l \<and> i = unat (num_items L) then Some ip else slot_of s p i)"
proof -
  have n: "unat (num_items L + 1) = Suc (unat (num_items L))"
    using L(2) by (rule unat_inc)
  show ?thesis
    using L n by (cases "p = l") (auto simp: s' slot_of_def deref_set_level)
qed

lemma child_of_new_item:
  assumes ok: "links_ok s"
    and L: "deref (level_mem s) l = Some L" "num_items L < max_items L"
           "unat (num_items L) < length (items L)"
    and s': "s' = set_level
               (set_level (s\<lparr>item_mem := item_mem s @ [Some it]\<rparr>) l
                  (\<lambda>L. L\<lparr>items := (items L)[unat (num_items L) := Some (length (item_mem s))]\<rparr>))
               l (\<lambda>L. L\<lparr>num_items := num_items L + 1\<rparr>)"
  shows "child_of s' p i = (if p = l \<and> i = unat (num_items L) then child it else child_of s p i)"
proof -
  note sl = slot_of_new_item[OF L s', of p i]
  have im: "item_mem s' = item_mem s @ [Some it]"
    by (simp add: s' item_mem_set_level)
  show ?thesis
  proof (cases "p = l \<and> i = unat (num_items L)")
    case True
    with sl im show ?thesis by (simp add: child_of_def deref_snoc)
  next
    case False
    with sl have eq: "slot_of s' p i = slot_of s p i" by simp
    show ?thesis
    proof (cases "slot_of s p i")
      case None
      with eq False show ?thesis by (auto simp: child_of_def)
    next
      case (Some ip)
      from links_ok_item[OF ok Some] have "ip < length (item_mem s)" .
      with eq Some im False show ?thesis by (auto simp: child_of_def deref_snoc)
    qed
  qed
qed

lemma add_action_cases:
  assumes "action_menu_level_add_action s lvl lbl cbf data a b = Inr (r, s')"
  shows "(r = None \<and> s' = s) \<or>
         (\<exists>l L. lvl = Some l \<and> r = Some (length (item_mem s)) \<and>
            deref (level_mem s) l = Some L \<and> num_items L < max_items L \<and>
            unat (num_items L) < length (items L) \<and>
            s' = set_level
               (set_level (s\<lparr>item_mem := item_mem s @
                   [Some \<lparr>label = lbl, action_data = data, cb = cbf, child = None\<rparr>]\<rparr>) l
                  (\<lambda>L. L\<lparr>items := (items L)[unat (num_items L) := Some (length (item_mem s))]\<rparr>))
               l (\<lambda>L. L\<lparr>num_items := num_items L + 1\<rparr>))"
  using assms
  by (auto simp: action_menu_level_add_action_def alloc_def Let_def
           split: option.splits if_splits)

lemma add_child_cases:
  assumes "action_menu_level_add_child s lvl chd lbl a b = Inr (r, s')"
  shows "(r = None \<and> s' = s) \<or>
         (\<exists>l c. r = None \<and> lvl = Some l \<and> chd = Some c \<and>
            s' = set_level s c (\<lambda>C. C\<lparr>parent := Some l\<rparr>)) \<or>
         (\<exists>l c L C s2 L2. lvl = Some l \<and> chd = Some c \<and> r = Some (length (item_mem s)) \<and>
            deref (level_mem s) l = Some L \<and> deref (level_mem s) c = Some C \<and>
            s2 = set_level (set_level s c (\<lambda>C. C\<lparr>parent := Some l\<rparr>)) c
                   (\<lambda>C. C\<lparr>level := level L + 1\<rparr>) \<and>
            deref (level_mem s2) l = Some L2 \<and> num_items L2 < max_items L2 \<and>
            unat (num_items L2) < length (items L2) \<and>
            s' = set_level
               (set_level (s2\<lparr>item_mem := item_mem s2 @
                   [Some \<lparr>label = lbl, action_data = None, cb = None, child = Some c\<rparr>]\<rparr>) l
                  (\<lambda>L. L\<lparr>items := (items L)[unat (num_items L) := Some (length (item_mem s2))]\<rparr>))
               l (\<lambda>L. L\<lparr>num_items := num_items L + 1\<rparr>))"
  using assms
  by (cases "lvl = chd")
     (auto simp: action_menu_level_add_child_def alloc_def Let_def deref_set_level
                 item_mem_set_level
           split: option.splits if_splits)

lemma links_ok_set_level:
  assumes "\<And>L. num_items (f L) = num_items L" and "\<And>L. items (f L) = items L"
    and "links_ok s"
  shows "links_ok (set_level s q f)"
  using assms(3) unfolding links_ok_def
  by (simp add: slot_of_set_level[of f, OF assms(1,2)] child_of_set_level[of f, OF assms(1,2)]
        item_mem_set_level length_set_level)

lemma links_ok_new_item:
  assumes ok: "links_ok s"
    and L: "deref (level_mem s) l = Some L" "num_items L < max_items L"
           "unat (num_items L) < length (items L)"
    and s': "s' = set_level
               (set_level (s\<lparr>item_mem := item_mem s @ [Some it]\<rparr>) l
                  (\<lambda>L. L\<lparr>items := (items L)[unat (num_items L) := Some (length (item_mem s))]\<rparr>))
               l (\<lambda>L. L\<lparr>num_items := num_items L + 1\<rparr>)"
    and c: "\<And>c. child it = Some c \<Longrightarrow> c < length (level_mem s)"
  shows "links_ok s'"
proof -
  have im: "item_mem s' = item_mem s @ [Some it]"
    by (simp add: s' item_mem_set_level)
  have len: "length (level_mem s') = length (level_mem s)"
    by (simp add: s' length_set_level)
  have 1: "ip < length (item_mem s')" if "slot_of s' p i = Some ip" for p i ip
    using that slot_of_new_item[OF L s', of p i] links_ok_item[OF ok, of p i ip]
    by (auto simp: im split: if_splits)
  have 2: "c' < length (level_mem s')" if "child_of s' p i = Some c'" for p i c'
    using that child_of_new_item[OF ok L s', of p i] links_ok_child[OF ok, of p i c'] c
    by (auto simp: len split: if_splits)
  from 1 2 show ?thesis unfolding links_ok_def by blast
qed

lemma deref_length: "deref m (length m) = None"
  by (simp add: deref_def)

lemma create_links_ok:
  assumes "action_menu_level_create s n a b = (r, s')" and "links_ok s"
  shows "links_ok s'"
proof -
  have sl: "slot_of s' p i = slot_of s p i" for p i
    using assms(1)
    by (auto simp: action_menu_level_create_def alloc_def slot_of_def deref_snoc deref_length
             split: if_splits option.splits)
  have im: "item_mem s' = item_mem s"
    using assms(1) by (auto simp: action_menu_level_create_def alloc_def split: if_splits)
  have len: "length (level_mem s) \<le> length (level_mem s')"
    using assms(1) by (auto simp: action_menu_level_create_def alloc_def split: if_splits)
  have ch: "child_of s' p i = child_of s p i" for p i
    by (simp add: child_of_def sl im cong: option.case_cong)
  from assms(2) len show ?thesis
    unfolding links_ok_def by (auto simp: sl ch im) fastforce
qed

lemma step_links_ok:
  assumes "step s op = Inr (r, s')" and "links_ok s"
  shows "links_ok s'"
proof (cases op)
  case (Create n a b)
  with assms show ?thesis by (auto intro: create_links_ok)
next
  case (SetDisplayMode lvl mode)
  with assms show ?thesis
    by (auto simp: action_menu_level_set_display_mode_def
             intro!: links_ok_set_level split: option.splits)
next
  case (AddAction lvl lbl cbf data a b)
  with assms have "action_menu_level_add_action s lvl lbl cbf data a b = Inr (r, s')" by simp
  from add_action_cases[OF this] show ?thesis
  proof (elim disjE exE conjE)
    assume "s' = s" with assms show ?thesis by simp
  next
    fix l L
    assume "deref (level_mem s) l = Some L" "num_items L < max_items L"
      "unat (num_items L) < length (items L)"
      and "s' = set_level
               (set_level (s\<lparr>item_mem := item_mem s @
                   [Some \<lparr>label = lbl, action_data = data, cb = cbf, child = None\<rparr>]\<rparr>) l
                  (\<lambda>L. L\<lparr>items := (items L)[unat (num_items L) := Some (length (item_mem s))]\<rparr>))
               l (\<lambda>L. L\<lparr>num_items := num_items L + 1\<rparr>)"
    from links_ok_new_item[OF assms(2) this] show ?thesis by simp
  qed
next
  case (AddChild lvl chd lbl a b)
  with assms have "action_menu_level_add_child s lvl chd lbl a b = Inr (r, s')" by simp
  from add_child_cases[OF this] show ?thesis
  proof (elim disjE exE conjE)
    assume "s' = s" with assms show ?thesis by simp
  next
    fix l c
    assume "s' = set_level s c (\<lambda>C. C\<lparr>parent := Some l\<rparr>)"
    with assms(2) show ?thesis by (auto intro!: links_ok_set_level)
  next
    fix l c L C s2 L2
    assume C: "deref (level_mem s) c = Some C"
      and s2: "s2 = set_level (set_level s c (\<lambda>C. C\<lparr>parent := Some l\<rparr>)) c
                   (\<lambda>C. C\<lparr>level := level L + 1\<rparr>)"
      and L2: "deref (level_mem s2) l = Some L2" "num_items L2 < max_items L2"
        "unat (num_items L2) < length (items L2)"
      and s': "s' = set_level
               (set_level (s2\<lparr>item_mem := item_mem s2 @
                   [Some \<lparr>label = lbl, action_data = None, cb = None, child = Some c\<rparr>]\<rparr>) l
                  (\<lambda>L. L\<lparr>items := (items L)[unat (num_items L) := Some (length (item_mem s2))]\<rparr>))
               l (\<lambda>L. L\<lparr>num_items := num_items L + 1\<rparr>)"
    have ok2: "links_ok s2"
      unfolding s2 using assms(2) by (auto intro!: links_ok_set_level)
    have "c < length (level_mem s2)"
      using C by (auto simp: s2 length_set_level dest: deref_Some_less)
    with links_ok_new_item[OF ok2 L2 s'] show ?thesis by simp
  qed
qed

lemma child_of_live: "child_of s p i = Some c \<Longrightarrow> \<exists>L. deref (level_mem s) p = Some L"
  by (auto simp: child_of_def slot_of_def split: option.splits)

lemma depth_ok_transfer:
  assumes "depth_ok s"
    and "\<And>p i c. child_of s' p i = Some c \<Longrightarrow>
           child_of s p i = Some c \<and>
           map_option level (deref (level_mem s') p) = map_option level (deref (level_mem s) p) \<and>
           map_option level (deref (level_mem s') c) = map_option level (deref (level_mem s) c)"
  shows "depth_ok s'"
proof (rule depth_okI)
  fix p i c L C
  assume c: "child_of s' p i = Some c" and L: "deref (level_mem s') p = Some L"
    and C: "deref (level_mem s') c = Some C"
  note a = assms(2)[OF c]
  from a L obtain L0 where L0: "deref (level_mem s) p = Some L0" "level L0 = level L"
    by (cases "deref (level_mem s) p") auto
  from a C obtain C0 where C0: "deref (level_mem s) c = Some C0" "level C0 = level C"
    by (cases "deref (level_mem s) c") auto
  from depth_okD[OF assms(1) _ L0(1) C0(1)] a L0 C0 show "level C = level L + 1"
    by auto
qed

lemma create_child_of:
  assumes "action_menu_level_create s n a b = (r, s')"
  shows "child_of s' p i = child_of s p i"
proof -
  have sl: "slot_of s' p i = slot_of s p i" for p i
    using assms(1)
    by (auto simp: action_menu_level_create_def alloc_def slot_of_def deref_snoc deref_length
             split: if_splits option.splits)
  have im: "item_mem s' = item_mem s"
    using assms(1) by (auto simp: action_menu_level_create_def alloc_def split: if_splits)
  show ?thesis
    by (simp add: child_of_def sl im cong: option.case_cong)
qed

lemma create_deref:
  assumes "action_menu_level_create s n a b = (r, s')" and "q < length (level_mem s)"
  shows "deref (level_mem s') q = deref (level_mem s) q"
  using assms
  by (auto simp: action_menu_level_create_def alloc_def deref_snoc split: if_splits)

lemma links_in_top_down:
  assumes "top_down s (AddChild (Some l) (Some c) lbl a b)"
  shows "c \<noteq> l" and "child_of s p i \<noteq> Some c" and "child_of s c i = None"
proof -
  from assms have 1: "c \<noteq> l" and 2: "c \<notin> snd ` set (links s)" and 3: "c \<notin> fst ` set (links s)"
    by auto
  show "c \<noteq> l" by (rule 1)
  show "child_of s p i \<noteq> Some c"
  proof
    assume "child_of s p i = Some c"
    then have "(p, c) \<in> set (links s)" by (rule in_links2)
    with 2 show False by force
  qed
  show "child_of s c i = None"
  proof (cases "child_of s c i")
    case None then show ?thesis .
  next
    case (Some c')
    then have "(c, c') \<in> set (links s)" by (rule in_links2)
    with 3 show ?thesis by force
  qed
qed

lemma step_depth_ok:
  assumes st: "step s op = Inr (r, s')" and ok: "links_ok s" and d: "depth_ok s"
    and td: "r = None \<or> top_down s op"
  shows "depth_ok s'"
proof (cases op)
  case (Create n a b)
  with st have cr: "action_menu_level_create s n a b = (r, s')" by simp
  show ?thesis
  proof (rule depth_ok_transfer[OF d])
    fix p i c
    assume "child_of s' p i = Some c"
    then have c: "child_of s p i = Some c" by (simp add: create_child_of[OF cr])
    from child_of_live[OF c] have "p < length (level_mem s)" by (auto dest: deref_Some_less)
    moreover from links_ok_child[OF ok c] have "c < length (level_mem s)" .
    ultimately show "child_of s p i = Some c \<and>
        map_option level (deref (level_mem s') p) = map_option level (deref (level_mem s) p) \<and>
        map_option level (deref (level_mem s') c) = map_option level (deref (level_mem s) c)"
      using c by (simp add: create_deref[OF cr])
  qed
next
  case (SetDisplayMode lvl mode)
  with st show ?thesis
    by (auto simp: action_menu_level_set_display_mode_def child_of_set_level level_set_level
             intro!: depth_ok_transfer[OF d] split: option.splits)
next
  case (AddAction lvl lbl cbf data a b)
  with st have "action_menu_level_add_action s lvl lbl cbf data a b = Inr (r, s')" by simp
  from add_action_cases[OF this] show ?thesis
  proof (elim disjE exE conjE)
    assume "s' = s" with d show ?thesis by simp
  next
    fix l L
    assume L: "deref (level_mem s) l = Some L" "num_items L < max_items L"
      "unat (num_items L) < length (items L)"
      and s': "s' = set_level
               (set_level (s\<lparr>item_mem := item_mem s @
                   [Some \<lparr>label = lbl, action_data = data, cb = cbf, child = None\<rparr>]\<rparr>) l
                  (\<lambda>L. L\<lparr>items := (items L)[unat (num_items L) := Some (length (item_mem s))]\<rparr>))
               l (\<lambda>L. L\<lparr>num_items := num_items L + 1\<rparr>)"
    note ch = child_of_new_item[OF ok L s']
    have lv: "map_option level (deref (level_mem s') q) = map_option level (deref (level_mem s) q)"
      for q
      by (simp add: s' level_set_level)
    show ?thesis
    proof (rule depth_ok_transfer[OF d])
      fix p i c
      assume "child_of s' p i = Some c"
      with ch[of p i] have "child_of s p i = Some c" by (auto split: if_splits)
      then show "child_of s p i = Some c \<and>
        map_option level (deref (level_mem s') p) = map_option level (deref (level_mem s) p) \<and>
        map_option level (deref (level_mem s') c) = map_option level (deref (level_mem s) c)"
        by (simp add: lv)
    qed
  qed
next
  case (AddChild lvl chd lbl a b)
  with st have ac: "action_menu_level_add_child s lvl chd lbl a b = Inr (r, s')" by simp
  from add_child_cases[OF ac] show ?thesis
  proof (elim disjE exE conjE)
    assume "s' = s" with d show ?thesis by simp
  next
    fix l c
    assume "s' = set_level s c (\<lambda>C. C\<lparr>parent := Some l\<rparr>)"
    then show ?thesis
      by (auto simp: child_of_set_level level_set_level intro!: depth_ok_transfer[OF d])
  next
    fix l c L C s2 L2
    assume lvl: "lvl = Some l" and chd: "chd = Some c" and r: "r = Some (length (item_mem s))"
      and L: "deref (level_mem s) l = Some L"
      and C: "deref (level_mem s) c = Some C"
      and s2: "s2 = set_level (set_level s c (\<lambda>C. C\<lparr>parent := Some l\<rparr>)) c
                   (\<lambda>C. C\<lparr>level := level L + 1\<rparr>)"
      and L2: "deref (level_mem s2) l = Some L2" "num_items L2 < max_items L2"
        "unat (num_items L2) < length (items L2)"
      and s': "s' = set_level
               (set_level (s2\<lparr>item_mem := item_mem s2 @
                   [Some \<lparr>label = lbl, action_data = None, cb = None, child = Some c\<rparr>]\<rparr>) l
                  (\<lambda>L. L\<lparr>items := (items L)[unat (num_items L) := Some (length (item_mem s2))]\<rparr>))
               l (\<lambda>L. L\<lparr>num_items := num_items L + 1\<rparr>)"
    from td r AddChild lvl chd have "top_down s (AddChild (Some l) (Some c) lbl a b)" by simp
    note t = links_in_top_down[OF this]
    have ok2: "links_ok s2"
      unfolding s2 using ok by (auto intro!: links_ok_set_level)
    have ch2: "child_of s2 p i = child_of s p i" for p i
      by (simp add: s2 child_of_set_level)
    note ch = child_of_new_item[OF ok2 L2 s']
    have lv': "map_option level (deref (level_mem s') q) = map_option level (deref (level_mem s2) q)"
      for q
      by (simp add: s' level_set_level)
    have lv2: "map_option level (deref (level_mem s2) q) =
        (if q = c then Some (level L + 1) else map_option level (deref (level_mem s) q))" for q
      using C by (simp add: s2 deref_set_level)
    have lv: "map_option level (deref (level_mem s') q) =
        (if q = c then Some (level L + 1) else map_option level (deref (level_mem s) q))" for q
      by (simp add: lv' lv2)
    show ?thesis
    proof (rule depth_okI)
      fix p i c' P' C'
      assume c': "child_of s' p i = Some c'" and P': "deref (level_mem s') p = Some P'"
        and C': "deref (level_mem s') c' = Some C'"
      show "level C' = level P' + 1"
      proof (cases "p = l \<and> i = unat (num_items L2)")
        case True
        with c' ch[of p i] have "c' = c" by simp
        with C' lv[of c] have a: "level C' = level L + 1" by simp
        from True P' lv[of l] t(1) L have "level P' = level L" by auto
        with a show ?thesis by simp
      next
        case False
        with c' ch[of p i] ch2[of p i] have c0: "child_of s p i = Some c'" by auto
        with t(2)[of p i] have ne: "c' \<noteq> c" by auto
        from c0 t(3)[of i] have np: "p \<noteq> c" by auto
        from P' lv[of p] np obtain P0 where P0: "deref (level_mem s) p = Some P0" "level P0 = level P'"
          by (cases "deref (level_mem s) p") auto
        from C' lv[of c'] ne obtain C0 where C0: "deref (level_mem s) c' = Some C0" "level C0 = level C'"
          by (cases "deref (level_mem s) c'") auto
        from depth_okD[OF d c0 P0(1) C0(1)] P0 C0 show ?thesis by simp
      qed
    qed
  qed
qed

lemma all_live_set_level: "all_live s \<Longrightarrow> all_live (set_level s q f)"
  unfolding all_live_def
  by (auto simp: deref_set_level length_set_level)

lemma all_live_item_mem: "all_live (s\<lparr>item_mem := im\<rparr>) = all_live s"
  by (simp add: all_live_def)

lemma step_all_live:
  assumes "step s op = Inr (r, s')" and "all_live s"
  shows "all_live s'"
proof (cases op)
  case (Create n a b)
  with assms show ?thesis
    by (auto simp: action_menu_level_create_def alloc_def all_live_def deref_snoc less_Suc_eq
             split: if_splits)
next
  case (SetDisplayMode lvl mode)
  with assms show ?thesis
    by (auto simp: action_menu_level_set_display_mode_def intro!: all_live_set_level
             split: option.splits)
next
  case (AddAction lvl lbl cbf data a b)
  with assms have "action_menu_level_add_action s lvl lbl cbf data a b = Inr (r, s')" by simp
  from add_action_cases[OF this] assms(2) show ?thesis
    by (auto simp: all_live_item_mem intro!: all_live_set_level)
next
  case (AddChild lvl chd lbl a b)
  with assms have "action_menu_level_add_child s lvl chd lbl a b = Inr (r, s')" by simp
  from add_child_cases[OF this] assms(2) show ?thesis
    by (auto simp: all_live_item_mem intro!: all_live_set_level)
qed

lemma run_depth_ok:
  "run s ops = Inr (rs, s') \<Longrightarrow> links_ok s \<Longrightarrow> all_live s \<Longrightarrow> depth_ok s \<Longrightarrow>
   top_down_run s ops \<Longrightarrow> links_ok s' \<and> all_live s' \<and> depth_ok s'"
proof (induction ops arbitrary: s rs)
  case Nil
  then show ?case by simp
next
  case (Cons op ops)
  from Cons.prems(1) obtain r s1 rs1 where
    st: "step s op = Inr (r, s1)" and rn: "run s1 ops = Inr (rs1, s')"
    by (auto split: sum.splits prod.splits)
  from Cons.prems(5) st have td: "r = None \<or> top_down s op" and tr: "top_down_run s1 ops"
    by auto
  from step_links_ok[OF st Cons.prems(2)] step_all_live[OF st Cons.prems(3)]
    step_depth_ok[OF st Cons.prems(2,4) td] Cons.IH[OF rn _ _ _ tr]
  show ?case by blast
qed

lemma empty_memory_ok: "links_ok empty_memory \<and> all_live empty_memory \<and> depth_ok empty_memory"
  by (simp add: links_ok_def all_live_def depth_ok_def links_def child_of_def slot_of_def
        empty_memory_def deref_def)

lemma step_level_one:
  assumes "step s op = Inr (r, s')" and "deref (level_mem s') p = Some L'"
  shows "(deref (level_mem s) p = None \<and> level L' = 1) \<or>
         (\<exists>L. deref (level_mem s) p = Some L \<and>
            (level L' = level L \<or> p \<in> set (attached [op] [r])))"
proof (cases op)
  case (Create n a b)
  with assms show ?thesis
    by (auto simp: action_menu_level_create_def alloc_def deref_snoc deref_length split: if_splits)
next
  case (SetDisplayMode lvl mode)
  with assms(1) have
    "map_option level (deref (level_mem s') p) = map_option level (deref (level_mem s) p)"
    by (auto simp: action_menu_level_set_display_mode_def level_set_level split: option.splits)
  with assms(2) show ?thesis by (cases "deref (level_mem s) p") auto
next
  case (AddAction lvl lbl cbf data a b)
  with assms have "action_menu_level_add_action s lvl lbl cbf data a b = Inr (r, s')" by simp
  from add_action_cases[OF this] have
    "map_option level (deref (level_mem s') p) = map_option level (deref (level_mem s) p)"
    by (auto simp: level_set_level)
  with assms(2) show ?thesis by (cases "deref (level_mem s) p") auto
next
  case (AddChild lvl chd lbl a b)
  with assms have "action_menu_level_add_child s lvl chd lbl a b = Inr (r, s')" by simp
  from add_child_cases[OF this] show ?thesis
  proof (elim disjE exE conjE)
    assume "s' = s" with assms(2) show ?thesis by simp
  next
    fix l c
    assume "s' = set_level s c (\<lambda>C. C\<lparr>parent := Some l\<rparr>)"
    then have "map_option level (deref (level_mem s') p) = map_option level (deref (level_mem s) p)"
      by (simp add: level_set_level)
    with assms(2) show ?thesis by (cases "deref (level_mem s) p") auto
  next
    fix l c L C s2 L2
    assume chd: "chd = Some c" and r: "r = Some (length (item_mem s))"
      and s2: "s2 = set_level (set_level s c (\<lambda>C. C\<lparr>parent := Some l\<rparr>)) c
                   (\<lambda>C. C\<lparr>level := level L + 1\<rparr>)"
      and s': "s' = set_level
               (set_level (s2\<lparr>item_mem := item_mem s2 @
                   [Some \<lparr>label = lbl, action_data = None, cb = None, child = Some c\<rparr>]\<rparr>) l
                  (\<lambda>L. L\<lparr>items := (items L)[unat (num_items L) := Some (length (item_mem s2))]\<rparr>))
               l (\<lambda>L. L\<lparr>num_items := num_items L + 1\<rparr>)"
    show ?thesis
    proof (cases "p = c")
      case True
      from assms(2) have "deref (level_mem s) p \<noteq> None"
        by (auto simp: s' s2 deref_set_level split: if_splits)
      with True chd r AddChild show ?thesis by auto
    next
      case False
      have "map_option level (deref (level_mem s') p) = map_option level (deref (level_mem s2) p)"
        by (simp add: s' level_set_level)
      also have "\<dots> = map_option level (deref (level_mem s) p)"
        using False by (simp add: s2 deref_set_level)
      finally show ?thesis using assms(2) by (cases "deref (level_mem s) p") auto
    qed
  qed
qed

lemma attached_Cons: "set (attached (op # ops) (r # rs)) = set (attached [op] [r]) \<union> set (attached ops rs)"
  by (cases "(op # ops, r # rs)" rule: attached.cases) auto

lemma run_level_one:
  "run s ops = Inr (rs, s') \<Longrightarrow>
   (\<forall>p L. deref (level_mem s) p = Some L \<longrightarrow> p \<notin> A \<longrightarrow> level L = 1) \<Longrightarrow>
   deref (level_mem s') p = Some L' \<Longrightarrow> p \<notin> A \<union> set (attached ops rs) \<Longrightarrow> level L' = 1"
proof (induction ops arbitrary: s rs A)
  case Nil
  then show ?case by auto
next
  case (Cons op ops)
  from Cons.prems(1) obtain r s1 rs1 where
    st: "step s op = Inr (r, s1)" and rn: "run s1 ops = Inr (rs1, s')" and rs: "rs = r # rs1"
    by (auto split: sum.splits prod.splits)
  let ?A = "A \<union> set (attached [op] [r])"
  have inv: "\<forall>q Q. deref (level_mem s1) q = Some Q \<longrightarrow> q \<notin> ?A \<longrightarrow> level Q = 1"
  proof (intro allI impI)
    fix q Q
    assume Q: "deref (level_mem s1) q = Some Q" and nq: "q \<notin> ?A"
    from step_level_one[OF st Q] show "level Q = 1"
    proof (elim disjE exE conjE)
      assume "level Q = 1" then show ?thesis .
    next
      fix L
      assume L: "deref (level_mem s) q = Some L" and e: "level Q = level L"
      from nq have "q \<notin> A" by simp
      with Cons.prems(2) L have "level L = 1" by blast
      with e show ?thesis by (rule trans)
    next
      fix L
      assume "q \<in> set (attached [op] [r])"
      with nq show ?thesis by simp
    qed
  qed
  from Cons.prems(4) rs attached_Cons[of op ops r rs1]
  have "p \<notin> ?A \<union> set (attached ops rs1)"
    by blast
  from Cons.IH[OF rn inv Cons.prems(3) this] show ?case .
qed

text \<open>
  Claim C4, as amended. For every hierarchy built from the empty memory by a sequence of
  builder calls: when the run is top-down (each successful \<open>add_child\<close> attaches a
  child that is not the level itself, is not yet linked from any item and has no item
  with a child of its own), every item with a non-null child links two live levels and
  the child's depth is the owner's depth plus one, in the 16 bits of the field; and in
  every run, top-down or not, a level that was never the child argument of a successful
  \<open>add_child\<close> has depth 1.
\<close>

theorem depth_invariant_top_down:
  assumes "run empty_memory ops = Inr (rs, s)"
  shows "(top_down_run empty_memory ops \<longrightarrow>
            (\<forall>p i c. child_of s p i = Some c \<longrightarrow>
               (\<exists>L C. deref (level_mem s) p = Some L \<and> deref (level_mem s) c = Some C \<and>
                      level C = level L + 1))) \<and>
         (\<forall>p L. deref (level_mem s) p = Some L \<longrightarrow> p \<notin> set (attached ops rs) \<longrightarrow> level L = 1)"
proof (intro conjI impI allI)
  fix p i c
  assume td: "top_down_run empty_memory ops" and c: "child_of s p i = Some c"
  from run_depth_ok[OF assms _ _ _ td] empty_memory_ok
  have ok: "links_ok s" and live: "all_live s" and d: "depth_ok s" by auto
  from child_of_live[OF c] obtain L where L: "deref (level_mem s) p = Some L" by blast
  from links_ok_child[OF ok c] live obtain C where C: "deref (level_mem s) c = Some C"
    by (auto simp: all_live_def)
  from depth_okD[OF d c L C] L C
  show "\<exists>L C. deref (level_mem s) p = Some L \<and> deref (level_mem s) c = Some C \<and>
              level C = level L + 1"
    by blast
next
  fix p L
  assume L: "deref (level_mem s) p = Some L" and n: "p \<notin> set (attached ops rs)"
  have e: "\<forall>p L. deref (level_mem empty_memory) p = Some L \<longrightarrow> p \<notin> {} \<longrightarrow> level L = 1"
    by (simp add: empty_memory_def deref_def)
  from n have "p \<notin> {} \<union> set (attached ops rs)" by simp
  from run_level_one[OF assms e L this] show "level L = 1" .
qed

theorem depth_invariant_top_down_witness:
  "run empty_memory
     [Create 2 True True, Create 1 True True,
      AddAction (Some 0) (Some ''A'') (Some 7) None True True,
      AddChild (Some 0) (Some 1) (Some ''B'') True True,
      AddAction (Some 1) (Some ''C'') (Some 8) None True True]
   = Inr ([Some 0, Some 1, Some 0, Some 1, Some 2], menu_tree) \<and>
   top_down_run empty_memory
     [Create 2 True True, Create 1 True True,
      AddAction (Some 0) (Some ''A'') (Some 7) None True True,
      AddChild (Some 0) (Some 1) (Some ''B'') True True,
      AddAction (Some 1) (Some ''C'') (Some 8) None True True] \<and>
   child_of menu_tree 0 1 = Some 1 \<and>
   0 \<notin> set (attached
     [Create 2 True True, Create 1 True True,
      AddAction (Some 0) (Some ''A'') (Some 7) None True True,
      AddChild (Some 0) (Some 1) (Some ''B'') True True,
      AddAction (Some 1) (Some ''C'') (Some 8) None True True]
     [Some 0, Some 1, Some 0, Some 1, Some 2]) \<and>
   map_option level (deref (level_mem menu_tree) 0) = Some 1 \<and>
   map_option level (deref (level_mem menu_tree) 1) = Some 2"
proof -
  let ?ops = "[Create 2 True True, Create 1 True True,
      AddAction (Some 0) (Some ''A'') (Some 7) None True True,
      AddChild (Some 0) (Some 1) (Some ''B'') True True,
      AddAction (Some 1) (Some ''C'') (Some 8) None True True]"
  let ?rs = "[Some 0, Some 1, Some 0, Some 1, Some 2 :: nat option]"
  note r = menu_tree_built
  have t: "top_down_run empty_memory ?ops" by code_simp
  have c: "child_of menu_tree 0 1 = Some 1" by code_simp
  have a: "0 \<notin> set (attached ?ops ?rs)" by simp
  note d = depth_invariant_top_down[OF r]
  from d t c obtain L C where
    L: "deref (level_mem menu_tree) 0 = Some L" and C: "deref (level_mem menu_tree) 1 = Some C"
    and e: "level C = level L + 1"
    by blast
  from d L a have "level L = 1" by blast
  with e L C have "map_option level (deref (level_mem menu_tree) 0) = Some 1"
    "map_option level (deref (level_mem menu_tree) 1) = Some 2"
    by simp_all
  with r t c a show ?thesis by blast
qed

text \<open>
  Claim C4 as stated, for any sequence of calls, fails: \<open>add_child\<close> sets the depth
  of the child it is given and of no other level, so a subtree that is built before it
  is attached keeps the depths it had. Here the level at 2 is linked below 1 while 1
  still has depth 1, and stays at depth 2 when 1 is linked below 0 and moves to depth 2.
\<close>

theorem depth_bottom_up_counterexample:
  "run empty_memory
     [Create 1 True True, Create 1 True True, Create 1 True True,
      AddChild (Some 1) (Some 2) (Some ''B'') True True,
      AddChild (Some 0) (Some 1) (Some ''A'') True True]
   = Inr ([Some 0, Some 1, Some 2, Some 0, Some 1], bottom_up) \<and>
   child_of bottom_up 1 0 = Some 2 \<and>
   map_option level (deref (level_mem bottom_up) 1) = Some 2 \<and>
   map_option level (deref (level_mem bottom_up) 2) = Some 2 \<and>
   \<not> depth_ok bottom_up"
proof -
  have r: "run empty_memory
     [Create 1 True True, Create 1 True True, Create 1 True True,
      AddChild (Some 1) (Some 2) (Some ''B'') True True,
      AddChild (Some 0) (Some 1) (Some ''A'') True True]
   = Inr ([Some 0, Some 1, Some 2, Some 0, Some 1], bottom_up)"
    by (simp add: builder_defs bottom_up_def)
  have c: "child_of bottom_up 1 0 = Some 2" by code_simp
  have l1: "map_option level (deref (level_mem bottom_up) 1) = Some 2"
    by (simp add: bottom_up_def deref_def)
  have l2: "map_option level (deref (level_mem bottom_up) 2) = Some 2"
    by (simp add: bottom_up_def deref_def)
  have n: "\<not> depth_ok bottom_up" by code_simp
  from r c l1 l2 n show ?thesis by blast
qed

subsection \<open>The session: animations and handlers\<close>

lemmas destroy_defs =
  destroy_property_animation_def property_animation_destroy_def animation_unschedule_def
  animation_is_scheduled_def

lemma animate_menu_mem: "mem (animate_menu w) = mem w"
  by (simp add: animate_menu_def destroy_defs alloc_def Let_def
           split: option.splits)

lemma animate_menu_menu:
  "menu (animate_menu w) = (menu w)\<lparr>prop_animation := Some (length (animations (host w)))\<rparr>"
  by (simp add: animate_menu_def destroy_defs alloc_def Let_def release_def
           split: option.splits)

lemma animate_menu_scheduled:
  "scheduled (host (animate_menu w)) =
     (case prop_animation (menu w) of
        None \<Rightarrow> scheduled (host w)
      | Some a \<Rightarrow> removeAll a (scheduled (host w))) @ [length (animations (host w))]"
  by (simp add: animate_menu_def destroy_defs alloc_def Let_def release_def
           split: option.splits)

lemma animate_menu_animation:
  "deref (animations (host (animate_menu w))) q =
     (if q = length (animations (host w))
      then Some \<lparr>to_x = (if frame_x (host w) = 0 then - MENU_LAYER_OFFSET else 0),
                 stopped = (frame_x (host w) = 0)\<rparr>
      else if Some q = prop_animation (menu w) then None
      else deref (animations (host w)) q)"
  by (auto simp: animate_menu_def destroy_defs alloc_def Let_def release_def
        deref_def nth_append MENU_LAYER_OFFSET_def split: option.splits)

lemma animate_menu_host_rest:
  "frame_x (host (animate_menu w)) = frame_x (host w) \<and>
   selected_row (host (animate_menu w)) = selected_row (host w) \<and>
   reloads (host (animate_menu w)) = reloads (host w) \<and>
   window_stack (host (animate_menu w)) = window_stack (host w)"
  by (simp add: animate_menu_def destroy_defs alloc_def Let_def
           split: option.splits)

lemma one_animation_scheduled:
  "one_animation w \<Longrightarrow> scheduled (host (animate_menu w)) = [length (animations (host w))]"
  by (auto simp: animate_menu_scheduled one_animation_def split: option.splits)

lemma select_submenu:
  assumes "\<not> frozen (menu w)" and "selected_item w = Some (ip, it)" and "child it = Some c"
  shows "select_click_handler perform w =
           Inr (animate_menu (w\<lparr>menu := (menu w)\<lparr>tmp_level := Some c\<rparr>\<rparr>))"
  using assms
  by (auto simp: select_click_handler_def selected_item_def split: option.splits if_splits)

lemma select_leaf:
  assumes "\<not> frozen (menu w)" and "selected_item w = Some (ip, it)" and "child it = None"
    and "cb it = Some f"
  shows "select_click_handler perform w =
           (let w1 = w\<lparr>menu := (menu w)\<lparr>performed_action := Some ip\<rparr>\<rparr>;
                w2 = perform f ip (app_context (config (menu w))) w1
            in Inr (if frozen (menu w2) then w2
                    else w2\<lparr>host := window_stack_push
                                      (window_stack_remove (host w2) (window (menu w2)))
                                      (result_window (menu w2))\<rparr>))"
  using assms
  by (auto simp: select_click_handler_def selected_item_def Let_def
           split: option.splits if_splits)

lemma back_parent:
  assumes "\<not> frozen (menu w)" and "current_parent w = Some (Some p)"
  shows "back_click_handler w = Inr (animate_menu (w\<lparr>menu := (menu w)\<lparr>tmp_level := Some p\<rparr>\<rparr>))"
  using assms
  by (auto simp: back_click_handler_def current_parent_def split: option.splits)

lemma back_root:
  assumes "\<not> frozen (menu w)" and "current_parent w = Some None"
  shows "back_click_handler w = Inr (w\<lparr>host := window_stack_remove (host w) (window (menu w))\<rparr>)"
  using assms
  by (auto simp: back_click_handler_def current_parent_def split: option.splits)

lemma animate_menu_one:
  assumes "one_animation w"
  shows "\<exists>a. prop_animation (menu (animate_menu w)) = Some a \<and>
             scheduled (host (animate_menu w)) = [a] \<and>
             prop_animation (menu w) \<noteq> Some a \<and>
             (\<forall>a0. prop_animation (menu w) = Some a0 \<longrightarrow>
                   deref (animations (host (animate_menu w))) a0 = None) \<and>
             one_animation (animate_menu w)"
proof -
  let ?a = "length (animations (host w))"
  have 1: "prop_animation (menu (animate_menu w)) = Some ?a"
    by (simp add: animate_menu_menu)
  have 2: "scheduled (host (animate_menu w)) = [?a]"
    using assms by (rule one_animation_scheduled)
  have 4: "deref (animations (host (animate_menu w))) a0 = None"
    if "prop_animation (menu w) = Some a0" for a0
    using that assms
    by (auto simp: one_animation_def animate_menu_def destroy_defs alloc_def Let_def release_def
          deref_def nth_append split: option.splits)
  have 3: "prop_animation (menu w) \<noteq> Some ?a"
  proof
    assume "prop_animation (menu w) = Some ?a"
    from 4[OF this] show False by (simp add: animate_menu_animation)
  qed
  have "length (animations (host (animate_menu w))) = Suc ?a"
    by (simp add: animate_menu_def destroy_defs alloc_def Let_def release_def
          split: option.splits)
  with 1 2 have 5: "one_animation (animate_menu w)"
    by (simp add: one_animation_def)
  from 1 2 3 4 5 show ?thesis by blast
qed

lemma transitioning_state:
  "select_click_handler perform (session_on_row 1) = Inr transitioning \<and>
   tmp_level (menu transitioning) = Some 1 \<and>
   current_level (menu transitioning) = Some 0 \<and>
   prop_animation (menu transitioning) = Some 0 \<and>
   scheduled (host transitioning) = [0] \<and>
   deref (animations (host transitioning)) 0 = Some \<lparr>to_x = - 14, stopped = True\<rparr> \<and>
   \<not> frozen (menu transitioning) \<and>
   window_stack (host transitioning) = [0] \<and>
   mem transitioning = menu_tree \<and>
   selected_row (host transitioning) = 1"
proof -
  have s: "selected_item (session_on_row 1) =
     Some (1, \<lparr>label = Some ''B'', action_data = None, cb = None, child = Some 1\<rparr>)"
    by (simp add: selected_item_def session_on_row_def root_session_def
          menu_tree_def idle_host_def deref_def)
  have f: "\<not> frozen (menu (session_on_row 1))"
    by (simp add: session_on_row_def root_session_def)
  from select_submenu[OF f s, of 1 perform]
  have 1: "select_click_handler perform (session_on_row 1) = Inr transitioning"
    by (simp add: transitioning_def)
  have 2: "tmp_level (menu transitioning) = Some 1"
    "current_level (menu transitioning) = Some 0"
    "prop_animation (menu transitioning) = Some 0"
    "scheduled (host transitioning) = [0]"
    "deref (animations (host transitioning)) 0 = Some \<lparr>to_x = - 14, stopped = True\<rparr>"
    "\<not> frozen (menu transitioning)"
    "window_stack (host transitioning) = [0]"
    "mem transitioning = menu_tree"
    "selected_row (host transitioning) = 1"
    by (simp_all add: transitioning_def animate_menu_menu animate_menu_scheduled
          animate_menu_animation animate_menu_host_rest animate_menu_mem
          session_on_row_def root_session_def idle_host_def MENU_LAYER_OFFSET_def)
  from 1 2 show ?thesis by blast
qed



lemma out_stopped_fields:
  "menu (animation_out_stopped w) =
     (menu w)\<lparr>current_level := tmp_level (menu w), tmp_level := None,
              prop_animation := Some (length (animations (host w)))\<rparr> \<and>
   mem (animation_out_stopped w) = mem w \<and>
   selected_row (host (animation_out_stopped w)) = 0 \<and>
   reloads (host (animation_out_stopped w)) = Suc (reloads (host w)) \<and>
   frame_x (host (animation_out_stopped w)) = frame_x (host w) \<and>
   window_stack (host (animation_out_stopped w)) = window_stack (host w)"
  by (simp add: animation_out_stopped_def animate_menu_menu animate_menu_mem animate_menu_host_rest)


lemma add_child_links:
  assumes "action_menu_level_add_child s lvl chd lbl a b = Inr (Some ip, s')"
  shows "\<exists>l c C it. lvl = Some l \<and> chd = Some c \<and>
           deref (level_mem s') c = Some C \<and> parent C = Some l \<and>
           deref (item_mem s') ip = Some it \<and> child it = Some c"
  using add_child_cases[OF assms]
  by (cases "lvl = chd")
     (auto simp: deref_set_level item_mem_set_level deref_snoc)

lemma animate_menu_schedules:
  "\<exists>a. prop_animation (menu (animate_menu w)) = Some a \<and>
       a \<in> set (scheduled (host (animate_menu w)))"
  by (simp add: animate_menu_menu animate_menu_scheduled)

lemma one_animation_completes:
  assumes "one_animation w"
  shows "one_animation (animation_completes w a)"
proof (cases "deref (animations (host w)) a")
  case None
  with assms show ?thesis by (simp add: animation_completes_def)
next
  case (Some an)
  show ?thesis
  proof (cases "a \<in> set (scheduled (host w))")
    case False
    with Some assms show ?thesis by (simp add: animation_completes_def)
  next
    case True
    let ?w1 = "w\<lparr>host := (host w)\<lparr>frame_x := to_x an,
                                 scheduled := removeAll a (scheduled (host w))\<rparr>\<rparr>"
    from True assms have o1: "one_animation ?w1"
      by (auto simp: one_animation_def split: option.splits)
    show ?thesis
    proof (cases "stopped an")
      case False
      with Some True o1 show ?thesis by (simp add: animation_completes_def Let_def)
    next
      case st: True
      let ?w2 = "?w1\<lparr>menu := (menu ?w1)\<lparr>current_level := tmp_level (menu ?w1), tmp_level := None\<rparr>,
          host := (host ?w1)\<lparr>selected_row := 0, reloads := Suc (reloads (host ?w1))\<rparr>\<rparr>"
      from o1 have "one_animation ?w2" by (simp add: one_animation_def split: option.splits)
      from animate_menu_one[OF this] have "one_animation (animate_menu ?w2)" by blast
      with Some True st show ?thesis
        by (simp add: animation_completes_def Let_def animation_out_stopped_def)
    qed
  qed
qed

lemma animate_menu_stopped_due:
  "stopped_due (host (animate_menu w)) = stopped_due (host w) @ stopped_owed w"
  by (simp add: animate_menu_def destroy_defs alloc_def Let_def stopped_owed_def
           split: option.splits)

lemma out_stopped_due:
  "stopped_due (host (animation_out_stopped w)) = stopped_due (host w) @ stopped_owed w"
  by (simp add: animation_out_stopped_def animate_menu_stopped_due)
     (simp add: stopped_owed_def split: option.splits)

lemma stopped_delivered:
  "stopped_due (host w) = a # due \<Longrightarrow>
   animation_stopped_delivered w =
     animation_out_stopped (w\<lparr>host := (host w)\<lparr>stopped_due := due\<rparr>\<rparr>)"
  by (simp add: animation_stopped_delivered_def)

lemma one_animation_out_stopped:
  assumes "one_animation w"
  shows "one_animation (animation_out_stopped w)"
proof -
  let ?w2 = "w\<lparr>menu := (menu w)\<lparr>current_level := tmp_level (menu w), tmp_level := None\<rparr>,
          host := (host w)\<lparr>selected_row := 0, reloads := Suc (reloads (host w))\<rparr>\<rparr>"
  from assms have "one_animation ?w2" by (simp add: one_animation_def split: option.splits)
  from animate_menu_one[OF this] have "one_animation (animate_menu ?w2)" by blast
  then show ?thesis
    by (simp add: animation_out_stopped_def)
qed

lemma one_animation_delivered:
  assumes "one_animation w"
  shows "one_animation (animation_stopped_delivered w)"
proof (cases "stopped_due (host w)")
  case Nil
  with assms show ?thesis by (simp add: animation_stopped_delivered_def)
next
  case (Cons a due)
  from assms have "one_animation (w\<lparr>host := (host w)\<lparr>stopped_due := due\<rparr>\<rparr>)"
    by (simp add: one_animation_def split: option.splits)
  from one_animation_out_stopped[OF this] Cons show ?thesis
    by (simp add: animation_stopped_delivered_def)
qed

lemma delivered_commits:
  assumes "stopped_due (host w) = a # due"
  shows "current_level (menu (animation_stopped_delivered w)) = tmp_level (menu w) \<and>
         tmp_level (menu (animation_stopped_delivered w)) = None \<and>
         selected_row (host (animation_stopped_delivered w)) = 0 \<and>
         reloads (host (animation_stopped_delivered w)) = Suc (reloads (host w)) \<and>
         stopped_due (host (animation_stopped_delivered w)) = due @ stopped_owed w"
  unfolding stopped_delivered[OF assms]
  by (simp add: out_stopped_fields out_stopped_due) (simp add: stopped_owed_def split: option.splits)

lemma transitioning_owed:
  "stopped_due (host transitioning) = [] \<and> stopped_owed transitioning = [0]"
proof -
  note t = transitioning_state[of app_callbacks]
  have "stopped_due (host transitioning) = []"
    by (simp add: transitioning_def animate_menu_stopped_due stopped_owed_def
          session_on_row_def root_session_def idle_host_def)
  moreover from t have "stopped_owed transitioning = [0]"
    by (simp add: stopped_owed_def)
  ultimately show ?thesis by simp
qed

subsection \<open>Frozen sessions\<close>

text \<open>
  Claim C5. On a frozen session the select, back, up and down handlers return at once:
  the world after the request is the world before it, so the current level, the
  performed action, the pending target, the animations and the window stack are
  untouched. After \<open>action_menu_unfreeze\<close> the flag is clear and the same requests
  are processed: \<open>Select\<close> on an item with a child sets the pending target to the child
  and calls \<open>animate_menu\<close>, which leaves an animation scheduled; \<open>Select\<close> on an
  item with a callback and no child performs the action; \<open>Back\<close> on a level with a
  parent sets the pending target to the parent and calls \<open>animate_menu\<close>; \<open>Back\<close>
  on a level without parent removes the window.
\<close>

theorem frozen_suppresses_input:
  assumes "frozen (menu w)" and "action_menu_unfreeze (Some (menu w)) = Some m"
  shows "select_click_handler perform w = Inr w \<and>
         back_click_handler w = Inr w \<and>
         up_click_handler w = w \<and>
         down_click_handler w = w \<and>
         \<not> frozen m \<and>
         (\<forall>ip it c. selected_item (w\<lparr>menu := m\<rparr>) = Some (ip, it) \<longrightarrow> child it = Some c \<longrightarrow>
            select_click_handler perform (w\<lparr>menu := m\<rparr>) =
              Inr (animate_menu (w\<lparr>menu := m\<lparr>tmp_level := Some c\<rparr>\<rparr>)) \<and>
            (\<exists>a. prop_animation (menu (animate_menu (w\<lparr>menu := m\<lparr>tmp_level := Some c\<rparr>\<rparr>))) = Some a \<and>
                 a \<in> set (scheduled (host (animate_menu (w\<lparr>menu := m\<lparr>tmp_level := Some c\<rparr>\<rparr>)))))) \<and>
         (\<forall>ip it f. selected_item (w\<lparr>menu := m\<rparr>) = Some (ip, it) \<longrightarrow> child it = None \<longrightarrow>
            cb it = Some f \<longrightarrow>
            select_click_handler perform (w\<lparr>menu := m\<rparr>) =
              (let w2 = perform f ip (app_context (config m))
                          (w\<lparr>menu := m\<lparr>performed_action := Some ip\<rparr>\<rparr>)
               in Inr (if frozen (menu w2) then w2
                       else w2\<lparr>host := window_stack_push
                                         (window_stack_remove (host w2) (window (menu w2)))
                                         (result_window (menu w2))\<rparr>))) \<and>
         (\<forall>p. current_parent (w\<lparr>menu := m\<rparr>) = Some (Some p) \<longrightarrow>
            back_click_handler (w\<lparr>menu := m\<rparr>) =
              Inr (animate_menu (w\<lparr>menu := m\<lparr>tmp_level := Some p\<rparr>\<rparr>)) \<and>
            (\<exists>a. prop_animation (menu (animate_menu (w\<lparr>menu := m\<lparr>tmp_level := Some p\<rparr>\<rparr>))) = Some a \<and>
                 a \<in> set (scheduled (host (animate_menu (w\<lparr>menu := m\<lparr>tmp_level := Some p\<rparr>\<rparr>)))))) \<and>
         (current_parent (w\<lparr>menu := m\<rparr>) = Some None \<longrightarrow>
            back_click_handler (w\<lparr>menu := m\<rparr>) =
              Inr (w\<lparr>menu := m, host := window_stack_remove (host w) (window m)\<rparr>))"
proof (intro conjI allI impI)
  let ?u = "w\<lparr>menu := m\<rparr>"
  from assms(2) have m: "m = (menu w)\<lparr>frozen := False\<rparr>"
    by (simp add: action_menu_unfreeze_def)
  then have nf: "\<not> frozen (menu ?u)" by simp
  show "select_click_handler perform w = Inr w"
    using assms(1) by (simp add: select_click_handler_def)
  show "back_click_handler w = Inr w"
    using assms(1) by (simp add: back_click_handler_def)
  show "up_click_handler w = w"
    using assms(1) by (simp add: up_click_handler_def)
  show "down_click_handler w = w"
    using assms(1) by (simp add: down_click_handler_def)
  show "\<not> frozen m" using m by simp
  show "select_click_handler perform ?u = Inr (animate_menu (w\<lparr>menu := m\<lparr>tmp_level := Some c\<rparr>\<rparr>))"
    if "selected_item ?u = Some (ip, it)" "child it = Some c" for ip it c
    using select_submenu[OF nf that, of perform] by simp
  show "\<exists>a. prop_animation (menu (animate_menu (w\<lparr>menu := m\<lparr>tmp_level := Some c\<rparr>\<rparr>))) = Some a \<and>
                 a \<in> set (scheduled (host (animate_menu (w\<lparr>menu := m\<lparr>tmp_level := Some c\<rparr>\<rparr>))))"
    for c
    by (rule animate_menu_schedules)
  show "select_click_handler perform ?u =
              (let w2 = perform f ip (app_context (config m))
                          (w\<lparr>menu := m\<lparr>performed_action := Some ip\<rparr>\<rparr>)
               in Inr (if frozen (menu w2) then w2
                       else w2\<lparr>host := window_stack_push
                                         (window_stack_remove (host w2) (window (menu w2)))
                                         (result_window (menu w2))\<rparr>))"
    if "selected_item ?u = Some (ip, it)" "child it = None" "cb it = Some f" for ip it f
    using select_leaf[OF nf that, of perform]
    by (simp add: Let_def)
  show "back_click_handler ?u = Inr (animate_menu (w\<lparr>menu := m\<lparr>tmp_level := Some p\<rparr>\<rparr>))"
    if "current_parent ?u = Some (Some p)" for p
    using back_parent[OF nf that] by simp
  show "\<exists>a. prop_animation (menu (animate_menu (w\<lparr>menu := m\<lparr>tmp_level := Some p\<rparr>\<rparr>))) = Some a \<and>
                 a \<in> set (scheduled (host (animate_menu (w\<lparr>menu := m\<lparr>tmp_level := Some p\<rparr>\<rparr>))))"
    for p
    by (rule animate_menu_schedules)
  show "back_click_handler ?u = Inr (w\<lparr>menu := m, host := window_stack_remove (host w) (window m)\<rparr>)"
    if "current_parent ?u = Some None"
    using back_root[OF nf that] by simp
qed

theorem frozen_suppresses_input_witness:
  "frozen (menu frozen_session) \<and>
   action_menu_unfreeze (Some (menu frozen_session)) = Some root_session \<and>
   select_click_handler app_callbacks frozen_session = Inr frozen_session \<and>
   back_click_handler frozen_session = Inr frozen_session \<and>
   selected_item (frozen_session\<lparr>menu := root_session\<rparr>) =
     Some (1, \<lparr>label = Some ''B'', action_data = None, cb = None, child = Some 1\<rparr>) \<and>
   select_click_handler app_callbacks (frozen_session\<lparr>menu := root_session\<rparr>) = Inr transitioning"
proof -
  have f: "frozen (menu frozen_session)"
    by (simp add: frozen_session_def)
  have u: "action_menu_unfreeze (Some (menu frozen_session)) = Some root_session"
    by (simp add: frozen_session_def action_menu_unfreeze_def root_session_def)
  have s: "selected_item (frozen_session\<lparr>menu := root_session\<rparr>) =
     Some (1, \<lparr>label = Some ''B'', action_data = None, cb = None, child = Some 1\<rparr>)"
    by (simp add: selected_item_def frozen_session_def session_on_row_def root_session_def
          menu_tree_def idle_host_def deref_def)
  have e: "frozen_session\<lparr>menu := root_session\<lparr>tmp_level := Some 1\<rparr>\<rparr> =
      (session_on_row 1)\<lparr>menu := (menu (session_on_row 1))\<lparr>tmp_level := Some 1\<rparr>\<rparr>"
    by (simp add: frozen_session_def session_on_row_def)
  note t = frozen_suppresses_input[OF f u, of app_callbacks]
  from t have 1: "select_click_handler app_callbacks frozen_session = Inr frozen_session"
    and 2: "back_click_handler frozen_session = Inr frozen_session"
    by blast+
  from t s have "select_click_handler app_callbacks (frozen_session\<lparr>menu := root_session\<rparr>) =
      Inr (animate_menu (frozen_session\<lparr>menu := root_session\<lparr>tmp_level := Some 1\<rparr>\<rparr>))"
    by (metis ActionMenuItem.select_convs(4))
  then have 3: "select_click_handler app_callbacks (frozen_session\<lparr>menu := root_session\<rparr>) = Inr transitioning"
    by (simp only: e transitioning_def)
  from f u 1 2 s 3 show ?thesis by blast
qed

subsection \<open>Selecting an action\<close>

text \<open>
  Claim C6. On a session that is not frozen, with the selection on an item that has a
  callback and no child, \<open>select_click_handler\<close> records the item as
  \<open>performed_action\<close>, calls the callback with the session in that state, the item
  and the configuration's context, and reads \<open>frozen\<close> from the session as the
  callback left it: when it is set the result is that world, with nothing removed or
  pushed; otherwise the session's window is removed from the stack and the result window,
  when one is set by then, is pushed on top.
\<close>

theorem select_leaf_performs_action:
  assumes "\<not> frozen (menu w)" and "selected_item w = Some (ip, it)" and "child it = None"
    and "cb it = Some f"
  shows "let w1 = w\<lparr>menu := (menu w)\<lparr>performed_action := Some ip\<rparr>\<rparr>;
             w2 = perform f ip (app_context (config (menu w))) w1;
             closed = w2\<lparr>host := window_stack_push
                                   (window_stack_remove (host w2) (window (menu w2)))
                                   (result_window (menu w2))\<rparr>
         in performed_action (menu w1) = Some ip \<and>
            select_click_handler perform w = Inr (if frozen (menu w2) then w2 else closed) \<and>
            (\<forall>r. result_window (menu w2) = Some r \<longrightarrow> hd (window_stack (host closed)) = r) \<and>
            (\<forall>x. window (menu w2) = Some x \<longrightarrow> result_window (menu w2) \<noteq> Some x \<longrightarrow>
                 x \<notin> set (window_stack (host closed)))"
  using select_leaf[OF assms, of perform]
  by (auto simp: Let_def window_stack_push_def window_stack_remove_def split: option.splits)

theorem select_leaf_performs_action_witness:
  "\<not> frozen (menu (session_on_row 0)) \<and>
   selected_item (session_on_row 0) =
     Some (0, \<lparr>label = Some ''A'', action_data = None, cb = Some 7, child = None\<rparr>) \<and>
   app_callbacks 7 0 (Some 42)
     ((session_on_row 0)\<lparr>menu := root_session\<lparr>performed_action := Some 0\<rparr>\<rparr>) =
     (session_on_row 0)\<lparr>menu := root_session\<lparr>performed_action := Some 0, result_window := Some 5\<rparr>\<rparr> \<and>
   select_click_handler app_callbacks (session_on_row 0) =
     Inr ((session_on_row 0)
            \<lparr>menu := root_session\<lparr>performed_action := Some 0, result_window := Some 5\<rparr>,
             host := idle_host\<lparr>window_stack := [5]\<rparr>\<rparr>) \<and>
   \<not> frozen (menu session_in_submenu) \<and>
   selected_item session_in_submenu =
     Some (2, \<lparr>label = Some ''C'', action_data = None, cb = Some 8, child = None\<rparr>) \<and>
   select_click_handler app_callbacks session_in_submenu =
     Inr (session_in_submenu
            \<lparr>menu := root_session\<lparr>current_level := Some 1, performed_action := Some 2,
                                   frozen := True\<rparr>\<rparr>) \<and>
   window_stack (host session_in_submenu) = [0]"
proof -
  let ?A = "\<lparr>label = Some ''A'', action_data = None, cb = Some 7, child = None\<rparr>"
  let ?C = "\<lparr>label = Some ''C'', action_data = None, cb = Some 8, child = None\<rparr>"
  have f: "\<not> frozen (menu (session_on_row 0))"
    by (simp add: session_on_row_def root_session_def)
  have s: "selected_item (session_on_row 0) = Some (0, ?A)"
    by (simp add: selected_item_def session_on_row_def root_session_def
          menu_tree_def idle_host_def deref_def)
  have c: "app_callbacks 7 0 (Some 42)
     ((session_on_row 0)\<lparr>menu := root_session\<lparr>performed_action := Some 0\<rparr>\<rparr>) =
     (session_on_row 0)\<lparr>menu := root_session\<lparr>performed_action := Some 0, result_window := Some 5\<rparr>\<rparr>"
    by (simp add: app_callbacks_def action_menu_set_result_window_def)
  have m: "menu (session_on_row 0) = root_session"
    "app_context (config root_session) = Some 42"
    by (simp_all add: session_on_row_def root_session_def)
  from select_leaf_performs_action[OF f s, of 7 app_callbacks]
  have 1: "select_click_handler app_callbacks (session_on_row 0) =
     Inr ((session_on_row 0)
            \<lparr>menu := root_session\<lparr>performed_action := Some 0, result_window := Some 5\<rparr>,
             host := idle_host\<lparr>window_stack := [5]\<rparr>\<rparr>)"
    by (simp add: Let_def m c)
       (simp add: session_on_row_def root_session_def idle_host_def window_stack_push_def
          window_stack_remove_def)
  have f2: "\<not> frozen (menu session_in_submenu)"
    by (simp add: session_in_submenu_def root_session_def)
  have s2: "selected_item session_in_submenu = Some (2, ?C)"
    by (simp add: selected_item_def session_in_submenu_def session_on_row_def root_session_def
          menu_tree_def idle_host_def deref_def)
  have c2: "app_callbacks 8 2 (Some 42)
     (session_in_submenu\<lparr>menu := (menu session_in_submenu)\<lparr>performed_action := Some 2\<rparr>\<rparr>) =
     session_in_submenu\<lparr>menu := root_session\<lparr>current_level := Some 1, performed_action := Some 2,
                                   frozen := True\<rparr>\<rparr>"
    by (simp add: app_callbacks_def action_menu_freeze_def session_in_submenu_def)
  have m2: "app_context (config (menu session_in_submenu)) = Some 42"
    by (simp add: session_in_submenu_def root_session_def)
  from select_leaf_performs_action[OF f2 s2, of 8 app_callbacks]
  have 2: "select_click_handler app_callbacks session_in_submenu =
     Inr (session_in_submenu
            \<lparr>menu := root_session\<lparr>current_level := Some 1, performed_action := Some 2,
                                   frozen := True\<rparr>\<rparr>)"
    by (simp add: Let_def m2 c2)
  have 3: "window_stack (host session_in_submenu) = [0]"
    by (simp add: session_in_submenu_def session_on_row_def idle_host_def)
  from f s c 1 f2 s2 2 3 show ?thesis by blast
qed

subsection \<open>Requests during a transition\<close>

text \<open>
  Claim C7, as amended. The handlers are gated by \<open>frozen\<close> alone; they read neither
  the pending target nor the animation, so a request is processed during a transition as
  it is at idle. On a session that is not frozen: \<open>Select\<close> on an item with a child
  and \<open>Back\<close> on a level with a parent overwrite the pending target and call
  \<open>animate_menu\<close>; \<open>Select\<close> on an item with a callback and no child performs the
  action; \<open>Back\<close> on a level without parent removes the window. When at most the
  session's own animation is in flight, \<open>animate_menu\<close> unschedules and destroys it
  before it creates and schedules the new one, so exactly one animation is scheduled
  afterwards, and the stopped handler the host owes for a slide out that was unscheduled
  this way joins those that are due. At most the session's own animation is in flight as
  well after the host has brought an animation to its end or has called a handler that was
  due; that call commits the target that is pending by then, selects row 0 and requests a
  reload.
\<close>

theorem input_during_transition:
  assumes "\<not> frozen (menu w)" and "one_animation w"
  shows "(\<forall>ip it c. selected_item w = Some (ip, it) \<longrightarrow> child it = Some c \<longrightarrow>
            select_click_handler perform w =
              Inr (animate_menu (w\<lparr>menu := (menu w)\<lparr>tmp_level := Some c\<rparr>\<rparr>))) \<and>
         (\<forall>ip it f. selected_item w = Some (ip, it) \<longrightarrow> child it = None \<longrightarrow> cb it = Some f \<longrightarrow>
            select_click_handler perform w =
              (let w2 = perform f ip (app_context (config (menu w)))
                          (w\<lparr>menu := (menu w)\<lparr>performed_action := Some ip\<rparr>\<rparr>)
               in Inr (if frozen (menu w2) then w2
                       else w2\<lparr>host := window_stack_push
                                         (window_stack_remove (host w2) (window (menu w2)))
                                         (result_window (menu w2))\<rparr>))) \<and>
         (\<forall>p. current_parent w = Some (Some p) \<longrightarrow>
            back_click_handler w =
              Inr (animate_menu (w\<lparr>menu := (menu w)\<lparr>tmp_level := Some p\<rparr>\<rparr>))) \<and>
         (current_parent w = Some None \<longrightarrow>
            back_click_handler w =
              Inr (w\<lparr>host := window_stack_remove (host w) (window (menu w))\<rparr>)) \<and>
         (\<forall>t. \<exists>a. prop_animation (menu (animate_menu (w\<lparr>menu := (menu w)\<lparr>tmp_level := t\<rparr>\<rparr>))) =
                   Some a \<and>
                 scheduled (host (animate_menu (w\<lparr>menu := (menu w)\<lparr>tmp_level := t\<rparr>\<rparr>))) = [a] \<and>
                 prop_animation (menu w) \<noteq> Some a \<and>
                 (\<forall>a0. prop_animation (menu w) = Some a0 \<longrightarrow>
                    deref (animations
                             (host (animate_menu (w\<lparr>menu := (menu w)\<lparr>tmp_level := t\<rparr>\<rparr>)))) a0 =
                      None) \<and>
                 one_animation (animate_menu (w\<lparr>menu := (menu w)\<lparr>tmp_level := t\<rparr>\<rparr>)) \<and>
                 stopped_due (host (animate_menu (w\<lparr>menu := (menu w)\<lparr>tmp_level := t\<rparr>\<rparr>))) =
                   stopped_due (host w) @ stopped_owed w) \<and>
         (\<forall>a. one_animation (animation_completes w a)) \<and>
         one_animation (animation_stopped_delivered w) \<and>
         (\<forall>a due. stopped_due (host w) = a # due \<longrightarrow>
            current_level (menu (animation_stopped_delivered w)) = tmp_level (menu w) \<and>
            tmp_level (menu (animation_stopped_delivered w)) = None \<and>
            selected_row (host (animation_stopped_delivered w)) = 0 \<and>
            reloads (host (animation_stopped_delivered w)) = Suc (reloads (host w)) \<and>
            stopped_due (host (animation_stopped_delivered w)) = due @ stopped_owed w)"
proof (intro conjI allI impI)
  fix ip it c
  assume "selected_item w = Some (ip, it)" "child it = Some c"
  from select_submenu[OF assms(1) this]
  show "select_click_handler perform w =
          Inr (animate_menu (w\<lparr>menu := (menu w)\<lparr>tmp_level := Some c\<rparr>\<rparr>))" .
next
  fix ip it f
  assume "selected_item w = Some (ip, it)" "child it = None" "cb it = Some f"
  from select_leaf[OF assms(1) this, of perform]
  show "select_click_handler perform w =
              (let w2 = perform f ip (app_context (config (menu w)))
                          (w\<lparr>menu := (menu w)\<lparr>performed_action := Some ip\<rparr>\<rparr>)
               in Inr (if frozen (menu w2) then w2
                       else w2\<lparr>host := window_stack_push
                                         (window_stack_remove (host w2) (window (menu w2)))
                                         (result_window (menu w2))\<rparr>))"
    by (simp add: Let_def)
next
  fix p
  assume "current_parent w = Some (Some p)"
  from back_parent[OF assms(1) this]
  show "back_click_handler w = Inr (animate_menu (w\<lparr>menu := (menu w)\<lparr>tmp_level := Some p\<rparr>\<rparr>))" .
next
  assume "current_parent w = Some None"
  from back_root[OF assms(1) this]
  show "back_click_handler w = Inr (w\<lparr>host := window_stack_remove (host w) (window (menu w))\<rparr>)" .
next
  fix t
  let ?w = "w\<lparr>menu := (menu w)\<lparr>tmp_level := t\<rparr>\<rparr>"
  have o: "one_animation ?w"
    using assms(2) by (simp add: one_animation_def split: option.splits)
  have d: "stopped_due (host (animate_menu ?w)) = stopped_due (host w) @ stopped_owed w"
    by (simp add: animate_menu_stopped_due) (simp add: stopped_owed_def split: option.splits)
  from animate_menu_one[OF o] d
  show "\<exists>a. prop_animation (menu (animate_menu ?w)) = Some a \<and>
                 scheduled (host (animate_menu ?w)) = [a] \<and>
                 prop_animation (menu w) \<noteq> Some a \<and>
                 (\<forall>a0. prop_animation (menu w) = Some a0 \<longrightarrow>
                    deref (animations (host (animate_menu ?w))) a0 = None) \<and>
                 one_animation (animate_menu ?w) \<and>
                 stopped_due (host (animate_menu ?w)) = stopped_due (host w) @ stopped_owed w"
    by simp
next
  fix a
  show "one_animation (animation_completes w a)"
    using assms(2) by (rule one_animation_completes)
next
  show "one_animation (animation_stopped_delivered w)"
    using assms(2) by (rule one_animation_delivered)
next
  fix a due
  assume d: "stopped_due (host w) = a # due"
  from delivered_commits[OF d]
  show "current_level (menu (animation_stopped_delivered w)) = tmp_level (menu w)"
    "tmp_level (menu (animation_stopped_delivered w)) = None"
    "selected_row (host (animation_stopped_delivered w)) = 0"
    "reloads (host (animation_stopped_delivered w)) = Suc (reloads (host w))"
    "stopped_due (host (animation_stopped_delivered w)) = due @ stopped_owed w"
    by blast+
qed

theorem input_during_transition_witness:
  "\<not> frozen (menu transitioning) \<and> one_animation transitioning \<and>
   tmp_level (menu transitioning) = Some 1 \<and> scheduled (host transitioning) = [0] \<and>
   stopped_due (host transitioning) = [] \<and> stopped_owed transitioning = [0] \<and>
   selected_item transitioning =
     Some (1, \<lparr>label = Some ''B'', action_data = None, cb = None, child = Some 1\<rparr>) \<and>
   current_parent transitioning = Some None \<and>
   select_click_handler app_callbacks transitioning =
     Inr (animate_menu (transitioning\<lparr>menu := (menu transitioning)\<lparr>tmp_level := Some 1\<rparr>\<rparr>)) \<and>
   (\<exists>a. scheduled (host (animate_menu
            (transitioning\<lparr>menu := (menu transitioning)\<lparr>tmp_level := Some 1\<rparr>\<rparr>))) = [a] \<and>
        a \<noteq> 0 \<and>
        deref (animations (host (animate_menu
            (transitioning\<lparr>menu := (menu transitioning)\<lparr>tmp_level := Some 1\<rparr>\<rparr>)))) 0 = None) \<and>
   stopped_due (host (animate_menu
            (transitioning\<lparr>menu := (menu transitioning)\<lparr>tmp_level := Some 1\<rparr>\<rparr>))) = [0] \<and>
   current_level (menu (animation_stopped_delivered (animate_menu
            (transitioning\<lparr>menu := (menu transitioning)\<lparr>tmp_level := Some 1\<rparr>\<rparr>)))) = Some 1 \<and>
   reloads (host (animation_stopped_delivered (animate_menu
            (transitioning\<lparr>menu := (menu transitioning)\<lparr>tmp_level := Some 1\<rparr>\<rparr>)))) = 1 \<and>
   back_click_handler transitioning =
     Inr (transitioning\<lparr>host := window_stack_remove (host transitioning) (Some 0)\<rparr>)"
proof -
  let ?w2 = "animate_menu (transitioning\<lparr>menu := (menu transitioning)\<lparr>tmp_level := Some 1\<rparr>\<rparr>)"
  note t = transitioning_state[of app_callbacks]
  note d = transitioning_owed
  from t have f: "\<not> frozen (menu transitioning)" by blast
  have len: "length (animations (host transitioning)) = 1"
    by (simp add: transitioning_def animate_menu_def destroy_defs alloc_def
          session_on_row_def root_session_def idle_host_def Let_def)
  with t have o: "one_animation transitioning" by (simp add: one_animation_def)
  from t have s: "selected_item transitioning =
     Some (1, \<lparr>label = Some ''B'', action_data = None, cb = None, child = Some 1\<rparr>)"
    by (simp add: selected_item_def menu_tree_def deref_def)
  from t have p: "current_parent transitioning = Some None"
    by (simp add: current_parent_def menu_tree_def deref_def)
  have w: "window (menu transitioning) = Some 0"
    by (simp add: transitioning_def animate_menu_menu session_on_row_def root_session_def)
  note i = input_during_transition[OF f o, of app_callbacks]
  from i s have 1: "select_click_handler app_callbacks transitioning = Inr ?w2"
    by (metis ActionMenuItem.select_convs(4))
  from i t have 2: "\<exists>a. scheduled (host ?w2) = [a] \<and> a \<noteq> 0 \<and>
        deref (animations (host ?w2)) 0 = None"
    by metis
  from i have "stopped_due (host ?w2) = stopped_due (host transitioning) @ stopped_owed transitioning"
    by blast
  with d have 5: "stopped_due (host ?w2) = [0]" by simp
  from i have o2: "one_animation ?w2" by blast
  have m2: "\<not> frozen (menu ?w2)" "tmp_level (menu ?w2) = Some 1" "reloads (host ?w2) = 0"
    using t by (simp_all add: animate_menu_menu animate_menu_host_rest)
       (simp add: transitioning_def animate_menu_host_rest session_on_row_def idle_host_def)
  note j = input_during_transition[OF m2(1) o2, of app_callbacks]
  from j 5 m2 have 6: "current_level (menu (animation_stopped_delivered ?w2)) = Some 1"
    "reloads (host (animation_stopped_delivered ?w2)) = 1"
    by simp_all
  from i p w have 3: "back_click_handler transitioning =
     Inr (transitioning\<lparr>host := window_stack_remove (host transitioning) (Some 0)\<rparr>)"
    by simp
  from t have 4: "tmp_level (menu transitioning) = Some 1" "scheduled (host transitioning) = [0]"
    by simp_all
  from f o 4 d s p 1 2 5 6 3 show ?thesis by blast
qed

text \<open>
  Claim C7 as stated, that a request during a transition is ignored, fails. In the
  scenario, \<open>Select\<close> on the submenu \<open>B\<close> starts the slide out; while it is in
  flight \<open>Back\<close> removes the window (the current level is still the root, which has
  no parent), and a second \<open>Select\<close> replaces the animation in flight.
\<close>

theorem input_during_transition_counterexample:
  "select_click_handler app_callbacks (session_on_row 1) = Inr transitioning \<and>
   tmp_level (menu transitioning) = Some 1 \<and>
   scheduled (host transitioning) = [0] \<and>
   window_stack (host transitioning) = [0] \<and>
   back_click_handler transitioning \<noteq> Inr transitioning \<and>
   (\<exists>w2. back_click_handler transitioning = Inr w2 \<and> window_stack (host w2) = []) \<and>
   select_click_handler app_callbacks transitioning \<noteq> Inr transitioning"
proof -
  note t = transitioning_state[of app_callbacks]
  from t have f: "\<not> frozen (menu transitioning)" by blast
  from t have s: "selected_item transitioning =
     Some (1, \<lparr>label = Some ''B'', action_data = None, cb = None, child = Some 1\<rparr>)"
    by (simp add: selected_item_def menu_tree_def deref_def)
  from t have p: "current_parent transitioning = Some None"
    by (simp add: current_parent_def menu_tree_def deref_def)
  have w: "window (menu transitioning) = Some 0"
    by (simp add: transitioning_def animate_menu_menu session_on_row_def root_session_def)
  have b: "back_click_handler transitioning =
     Inr (transitioning\<lparr>host := window_stack_remove (host transitioning) (Some 0)\<rparr>)"
    using back_root[OF f p] w by simp
  have ws: "window_stack (host (transitioning\<lparr>host := window_stack_remove (host transitioning) (Some 0)\<rparr>)) = []"
    using t by (simp add: window_stack_remove_def)
  have b1: "back_click_handler transitioning \<noteq> Inr transitioning"
  proof
    assume "back_click_handler transitioning = Inr transitioning"
    with b have "transitioning\<lparr>host := window_stack_remove (host transitioning) (Some 0)\<rparr> = transitioning"
      by simp
    then have "window_stack (host (transitioning\<lparr>host := window_stack_remove (host transitioning) (Some 0)\<rparr>))
        = window_stack (host transitioning)" by simp
    with ws t show False by simp
  qed
  let ?w2 = "animate_menu (transitioning\<lparr>menu := (menu transitioning)\<lparr>tmp_level := Some 1\<rparr>\<rparr>)"
  have sel: "select_click_handler app_callbacks transitioning = Inr ?w2"
    using select_submenu[OF f s, of 1 app_callbacks] by simp
  have len: "length (animations (host transitioning)) = 1"
    by (simp add: transitioning_def animate_menu_def destroy_defs alloc_def
          session_on_row_def root_session_def idle_host_def Let_def)
  have pa: "prop_animation (menu ?w2) = Some 1"
    using len by (simp add: animate_menu_menu)
  have s1: "select_click_handler app_callbacks transitioning \<noteq> Inr transitioning"
  proof
    assume "select_click_handler app_callbacks transitioning = Inr transitioning"
    with sel have "?w2 = transitioning" by simp
    then have "prop_animation (menu ?w2) = prop_animation (menu transitioning)" by simp
    with pa t show False by simp
  qed
  from t b b1 ws s1 show ?thesis by auto
qed

subsection \<open>Committing a transition\<close>





subsection \<open>The level \<open>action_menu_get_root_level\<close> returns\<close>

text \<open>
  Claim C10. \<open>action_menu_get_root_level\<close> returns null for a null session and the
  session's current level otherwise. Right after \<open>action_menu_open\<close> that is the
  root of the configuration; once a descend has been committed by
  \<open>animation_out_stopped\<close> it is the level that was the pending target, while the
  root stored in the configuration is unchanged.
\<close>

theorem get_root_level_is_current_level:
  "action_menu_get_root_level None = None \<and>
   action_menu_get_root_level (Some m) = current_level m \<and>
   (action_menu_open h (Some cfg) True True = Inr (Some m0, h0) \<longrightarrow>
      action_menu_get_root_level (Some m0) = root_level cfg \<and> config m0 = cfg) \<and>
   action_menu_get_root_level (Some (menu (animation_out_stopped w))) = tmp_level (menu w) \<and>
   config (menu (animation_out_stopped w)) = config (menu w)"
  by (auto simp: action_menu_get_root_level_def action_menu_open_def out_stopped_fields)

theorem get_root_level_is_current_level_witness:
  "action_menu_open
     \<lparr>window_stack = [], windows = 0, frame_x = 0, selected_row = 0, reloads = 0,
      animations = [], scheduled = [], stopped_due = []\<rparr>
     (Some \<lparr>root_level = Some 0, app_context = Some 42, will_close = None, did_close = None\<rparr>)
     True True = Inr (Some root_session, idle_host) \<and>
   action_menu_get_root_level (Some root_session) = Some 0 \<and>
   tmp_level (menu transitioning) = Some 1 \<and>
   action_menu_get_root_level (Some (menu (animation_out_stopped transitioning))) = Some 1 \<and>
   root_level (config (menu (animation_out_stopped transitioning))) = Some 0"
proof -
  let ?h = "\<lparr>window_stack = [], windows = 0, frame_x = 0, selected_row = 0, reloads = 0,
      animations = [], scheduled = [], stopped_due = []\<rparr>"
  let ?cfg = "\<lparr>root_level = Some 0, app_context = Some 42, will_close = None, did_close = None\<rparr>"
  have o: "action_menu_open ?h (Some ?cfg) True True = Inr (Some root_session, idle_host)"
    by (simp add: action_menu_open_def root_session_def idle_host_def)
  have t: "tmp_level (menu transitioning) = Some 1"
    "root_level (config (menu transitioning)) = Some 0"
    by (simp_all add: transitioning_def animate_menu_menu session_on_row_def root_session_def)
  note g = get_root_level_is_current_level[of root_session ?h ?cfg root_session idle_host transitioning]
  from g o have 1: "action_menu_get_root_level (Some root_session) = Some 0"
    by (simp add: root_session_def)
  from g t have 2: "action_menu_get_root_level (Some (menu (animation_out_stopped transitioning))) = Some 1"
    "root_level (config (menu (animation_out_stopped transitioning))) = Some 0"
    by simp_all
  from o 1 t 2 show ?thesis by simp
qed

end
